theory Spec2Isabelle
  imports Complex_Main "HOL-Library.Word"
begin

section \<open>Strings, bytes and configuration\<close>

text \<open>
  A JavaScript string is a sequence of UTF-16 code units; \<open>length\<close>, \<open>substring\<close>, the
  regular expression of \<open>sanitizeFileName\<close> (no \<open>u\<close> flag) and \<open>trim\<close> all work on code
  units. A \<open>Uint8Array\<close> is a sequence of bytes.
\<close>

type_synonym jsstring = "16 word list"

type_synonym bytes = "8 word list"

text \<open>An ASCII literal of the source, as code units.\<close>

definition js :: "string \<Rightarrow> jsstring" where
  "js s = map (\<lambda>c. of_nat (of_char c)) s"

text \<open>The \<open>CONFIG\<close> object of \<open>code.ts\<close>.\<close>

definition BATCH_SIZE :: nat where
  "BATCH_SIZE = 10"

definition SCAN_CHUNK_SIZE :: nat where
  "SCAN_CHUNK_SIZE = 100"

definition UPDATE_INTERVAL_MS :: int where
  "UPDATE_INTERVAL_MS = 100"

definition MAX_FILE_SIZE :: nat where
  "MAX_FILE_SIZE = 100 * 1024 * 1024"

definition MIN_ETA_SAMPLES :: nat where
  "MIN_ETA_SAMPLES = 5"

definition MAX_RETRY_ATTEMPTS :: nat where
  "MAX_RETRY_ATTEMPTS = 3"

definition RETRY_DELAY_MS :: nat where
  "RETRY_DELAY_MS = 100"


section \<open>The format sniffer: \<open>detectImageFormat\<close>\<close>

text \<open>The union type \<open>FetchedImageInfo["format"]\<close>; \<open>bin\<close> is the label of an unknown format.\<close>

datatype ImageFormat = JPG | PNG | WEBP | GIF | bin

text \<open>
  \<open>detectImageFormat\<close> reads \<open>bytes[0]\<close> and \<open>bytes[1]\<close> only after the length check, so
  both indices are in range wherever they are read.
\<close>

definition detectImageFormat :: "bytes \<Rightarrow> ImageFormat" where
  "detectImageFormat bs =
     (if length bs < 4 then bin
      else if bs ! 0 = 0x89 \<and> bs ! 1 = 0x50 then PNG
      else if bs ! 0 = 0xff \<and> bs ! 1 = 0xd8 then JPG
      else if bs ! 0 = 0x52 \<and> bs ! 1 = 0x49 then WEBP
      else if bs ! 0 = 0x47 \<and> bs ! 1 = 0x49 then GIF
      else bin)"


section \<open>The operation token manager\<close>

text \<open>
  The class \<open>OperationManager\<close>: the private fields \<open>id\<close> and \<open>cancelled\<close>. The field
  \<open>id\<close> is written \<open>id'\<close> here. \<open>start\<close> reads the clock (\<open>Date.now()\<close>, milliseconds as
  an integer); the reading is a parameter of the model.
\<close>

record OperationManager =
  id' :: int
  cancelled :: bool

definition new_OperationManager :: OperationManager where
  "new_OperationManager = \<lparr>id' = 0, cancelled = False\<rparr>"

definition start :: "int \<Rightarrow> OperationManager \<Rightarrow> int \<times> OperationManager" where
  "start now m = (now, m\<lparr>id' := now, cancelled := False\<rparr>)"

definition cancel :: "OperationManager \<Rightarrow> OperationManager" where
  "cancel m = m\<lparr>cancelled := True\<rparr>"

definition isActive :: "OperationManager \<Rightarrow> int \<Rightarrow> bool" where
  "isActive m opId \<longleftrightarrow> \<not> cancelled m \<and> id' m = opId"


section \<open>The name sanitizer: \<open>sanitizeFileName\<close>\<close>

text \<open>
  The character class of the regular expression \<open>/[<>:"/\\|?*\x00-\x1f]/g\<close>, and the
  replacement of every match by an underscore.
\<close>

definition illegal :: "16 word \<Rightarrow> bool" where
  "illegal c \<longleftrightarrow> c \<in> {0x3c, 0x3e, 0x3a, 0x22, 0x2f, 0x5c, 0x7c, 0x3f, 0x2a} \<or> c \<le> 0x1f"

definition replace_illegal :: "jsstring \<Rightarrow> jsstring" where
  "replace_illegal s = map (\<lambda>c. if illegal c then 0x5f else c) s"

text \<open>
  \<open>String.prototype.trim\<close> removes the white space and line terminator code units of
  ECMAScript from both ends.
\<close>

definition isWhiteSpace :: "16 word \<Rightarrow> bool" where
  "isWhiteSpace c \<longleftrightarrow>
     c \<in> {0x09, 0x0a, 0x0b, 0x0c, 0x0d, 0x20, 0xa0, 0x1680, 0x2028, 0x2029, 0x202f, 0x205f,
          0x3000, 0xfeff}
     \<or> (0x2000 \<le> c \<and> c \<le> 0x200a)"

definition trim :: "jsstring \<Rightarrow> jsstring" where
  "trim s = rev (dropWhile isWhiteSpace (rev (dropWhile isWhiteSpace s)))"

text \<open>\<open>s.substring(a, b)\<close> for non-negative integers: the arguments are swapped when
  \<open>a > b\<close> and clamped to the length.\<close>

definition substring :: "jsstring \<Rightarrow> nat \<Rightarrow> nat \<Rightarrow> jsstring" where
  "substring s a b = take (max a b - min a b) (drop (min a b) s)"

text \<open>
  \<open>sanitizeFileName\<close>. The argument is \<open>None\<close> for an absent (\<open>undefined\<close> or \<open>null\<close>)
  name, which is falsy like the empty string.
\<close>

definition sanitizeFileName :: "jsstring option \<Rightarrow> jsstring" where
  "sanitizeFileName name =
     (case name of
        None \<Rightarrow> js ''image''
      | Some n \<Rightarrow>
          if n = [] then js ''image''
          else let r = substring (trim (replace_illegal n)) 0 255
               in if r = [] then js ''image'' else r)"



section \<open>Collision-free display names\<close>

text \<open>
  The template literal \<open>`${baseName}_${counter++}`\<close>: a counter is rendered in decimal
  (a JavaScript number that is an integer below \<open>10^21\<close> prints as its decimal digits).
\<close>

fun numberToString :: "nat \<Rightarrow> jsstring" where
  "numberToString n =
     (if n < 10 then [of_nat (48 + n)]
      else numberToString (n div 10) @ [of_nat (48 + n mod 10)])"

declare numberToString.simps [simp del]

text \<open>The candidate name with suffix \<open>_counter\<close>.\<close>

definition suffixed :: "jsstring \<Rightarrow> nat \<Rightarrow> jsstring" where
  "suffixed baseName counter = baseName @ js ''_'' @ numberToString counter"

text \<open>
  The loop \<open>while (existingNames.has(uniqueName))\<close> ends because the candidates are
  pairwise different and the name set is finite: some candidate is free.
\<close>

lemma numberToString_ne: "numberToString n \<noteq> []"
  by (subst numberToString.simps) simp

lemma digit_inj: "a < 10 \<Longrightarrow> b < 10 \<Longrightarrow> (of_nat (48 + a) :: 16 word) = of_nat (48 + b) \<Longrightarrow> a = b"
proof -
  assume a: "a < 10" and b: "b < 10" and e: "(of_nat (48 + a) :: 16 word) = of_nat (48 + b)"
  have ua: "unat (of_nat (48 + a) :: 16 word) = 48 + a"
    using a by (simp add: unat_of_nat del: of_nat_add)
  have ub: "unat (of_nat (48 + b) :: 16 word) = 48 + b"
    using b by (simp add: unat_of_nat del: of_nat_add)
  from e have "unat (of_nat (48 + a) :: 16 word) = unat (of_nat (48 + b) :: 16 word)"
    by (rule arg_cong)
  then have "48 + a = 48 + b" unfolding ua ub .
  then show "a = b" by arith
qed

lemma numberToString_last: "last (numberToString n) = of_nat (48 + n mod 10)"
  by (subst numberToString.simps) (simp add: numberToString_ne)

lemma numberToString_butlast:
  "butlast (numberToString n) = (if n < 10 then [] else numberToString (n div 10))"
  by (subst numberToString.simps) (simp add: butlast_append)

lemma numberToString_inj: "numberToString m = numberToString n \<Longrightarrow> m = n"
proof (induction m arbitrary: n rule: numberToString.induct)
  case (1 m)
  have l: "m mod 10 = n mod 10"
    using arg_cong[OF "1.prems", of last] by (auto simp: numberToString_last intro: digit_inj)
  have b: "(if m < 10 then [] else numberToString (m div 10)) = (if n < 10 then [] else numberToString (n div 10))"
    using arg_cong[OF "1.prems", of butlast] by (simp only: numberToString_butlast)
  show ?case
  proof (cases "m < 10")
    case True
    then have "n < 10" using b numberToString_ne[of "n div 10"] by (auto split: if_splits)
    with True l show ?thesis by simp
  next
    case False
    then have n: "\<not> n < 10" using b numberToString_ne[of "m div 10"] by (auto split: if_splits)
    with False b have "numberToString (m div 10) = numberToString (n div 10)" by simp
    then have "m div 10 = n div 10" using "1.IH"[OF False] by simp
    with l show ?thesis by (metis div_mult_mod_eq)
  qed
qed

lemma suffixed_inj: "suffixed b j = suffixed b k \<Longrightarrow> j = k"
  by (simp add: suffixed_def numberToString_inj)


lemma ex_free_suffix: "\<exists>k\<ge>c. suffixed b k \<notin> set names"
proof (rule ccontr)
  assume "\<not> ?thesis"
  then have "suffixed b ` {c..} \<subseteq> set names" by auto
  then have "finite (suffixed b ` {c..})" by (rule finite_subset) simp
  moreover have "inj_on (suffixed b) {c..}" by (auto intro: inj_onI dest: suffixed_inj)
  ultimately have "finite {c..}" by (rule finite_imageD)
  then show False by (simp add: infinite_Ici)
qed

text \<open>The counter at which the loop stops when started at \<open>c\<close>; it measures the loop.\<close>

definition firstFree :: "jsstring list \<Rightarrow> jsstring \<Rightarrow> nat \<Rightarrow> nat" where
  "firstFree names b c = (LEAST k. c \<le> k \<and> suffixed b k \<notin> set names)"

lemma firstFree_props:
  "c \<le> firstFree names b c" "suffixed b (firstFree names b c) \<notin> set names"
  "\<And>j. c \<le> j \<Longrightarrow> j < firstFree names b c \<Longrightarrow> suffixed b j \<in> set names"
proof -
  obtain k where k: "c \<le> k \<and> suffixed b k \<notin> set names" using ex_free_suffix by blast
  from LeastI[of "\<lambda>k. c \<le> k \<and> suffixed b k \<notin> set names", OF k]
  show "c \<le> firstFree names b c" "suffixed b (firstFree names b c) \<notin> set names"
    by (simp_all add: firstFree_def)
  fix j assume "c \<le> j" "j < firstFree names b c"
  then show "suffixed b j \<in> set names"
    using not_less_Least[of j "\<lambda>k. c \<le> k \<and> suffixed b k \<notin> set names"]
    by (auto simp: firstFree_def)
qed

lemma firstFree_here: "suffixed b c \<notin> set names \<Longrightarrow> firstFree names b c = c"
  using firstFree_props(1)[of c names b] firstFree_props(3)[of c c names b]
  by (metis le_neq_implies_less order_refl)

lemma firstFree_next: "suffixed b c \<in> set names \<Longrightarrow> firstFree names b c = firstFree names b (Suc c)"
proof -
  assume h: "suffixed b c \<in> set names"
  have "(c \<le> k \<and> suffixed b k \<notin> set names) = (Suc c \<le> k \<and> suffixed b k \<notin> set names)" for k
    using h by (cases "k = c") auto
  then show ?thesis by (simp add: firstFree_def)
qed

text \<open>
  The loop of \<open>addUniqueImage\<close> over the variables \<open>uniqueName\<close> and \<open>counter\<close>; the name
  set is a list in insertion order.
\<close>

function nameLoop :: "jsstring list \<Rightarrow> jsstring \<Rightarrow> jsstring \<Rightarrow> nat \<Rightarrow> jsstring" where
  "nameLoop existingNames baseName uniqueName counter =
     (if uniqueName \<in> set existingNames
      then nameLoop existingNames baseName (suffixed baseName counter) (counter + 1)
      else uniqueName)"
  by pat_completeness auto
termination
proof (relation "measure (\<lambda>(names, b, u, c).
          if u \<in> set names then Suc (firstFree names b c - c) else 0)", goal_cases)
  case 1
  show ?case by simp
next
  case (2 names b u c)
  show ?case
  proof (cases "suffixed b c \<in> set names")
    case True
    have "Suc c \<le> firstFree names b (Suc c)" by (rule firstFree_props(1))
    then show ?thesis using 2 True by (simp add: firstFree_next[OF True])
  next
    case False
    then show ?thesis using 2 by simp
  qed
qed

declare nameLoop.simps [simp del]

section \<open>The document tree\<close>

text \<open>
  A paint carries its \<open>type\<close> tag and, for an image paint, the \<open>imageHash\<close> (absent or
  \<open>null\<close> is \<open>None\<close>). A scene node has a name, a \<open>type\<close> tag, and may have \<open>fills\<close>,
  \<open>strokes\<close> (\<open>None\<close> when the property is absent or is not an array) and \<open>children\<close>
  (\<open>None\<close> when the node has no such property).
\<close>

datatype Paint = Paint (paint_type: string) (paint_imageHash: "jsstring option")

datatype SceneNode =
  SceneNode (node_name: jsstring) (node_type: string)
    (fills: "Paint list option") (strokes: "Paint list option")
    (children: "SceneNode list option")

text \<open>
  The \<open>parent\<close> link: a reference to a node is the node together with the chain of its
  parents, nearest first, each with the \<open>type\<close> and \<open>name\<close> the ancestor walk reads.
\<close>

datatype BaseNode = BaseNode (base_type: string) (base_name: jsstring)

type_synonym NodeRef = "SceneNode \<times> BaseNode list"

definition asBase :: "SceneNode \<Rightarrow> BaseNode" where
  "asBase n = BaseNode (node_type n) (node_name n)"

definition childRefs :: "NodeRef \<Rightarrow> NodeRef list" where
  "childRefs node =
     (case children (fst node) of
        None \<Rightarrow> []
      | Some cs \<Rightarrow> map (\<lambda>c. (c, asBase (fst node) # snd node)) cs)"

section \<open>The tree scanner\<close>

text \<open>The interface \<open>FoundImageInfo\<close>.\<close>

record FoundImageInfo =
  hash :: jsstring
  name :: jsstring
  frame :: jsstring

text \<open>
  \<open>uniqueImages\<close> is a \<open>Map\<close> from hash to entry and \<open>existingNames\<close> a \<open>Set\<close>; both keep
  insertion order. The map is the list of its values: every value is stored under its
  own \<open>hash\<close>.
\<close>

definition Map_has :: "FoundImageInfo list \<Rightarrow> jsstring \<Rightarrow> bool" where
  "Map_has m k \<longleftrightarrow> k \<in> set (map hash m)"

definition Map_set :: "FoundImageInfo list \<Rightarrow> jsstring \<Rightarrow> FoundImageInfo \<Rightarrow> FoundImageInfo list" where
  "Map_set m k v = (if Map_has m k then map (\<lambda>e. if hash e = k then v else e) m else m @ [v])"

definition Set_has :: "jsstring list \<Rightarrow> jsstring \<Rightarrow> bool" where
  "Set_has s x \<longleftrightarrow> x \<in> set s"

definition Set_add :: "jsstring list \<Rightarrow> jsstring \<Rightarrow> jsstring list" where
  "Set_add s x = (if Set_has s x then s else s @ [x])"

text \<open>
  The ancestor walk of \<open>addUniqueImage\<close>, over the chain that starts with the node itself
  (\<open>parent = node\<close>); \<open>frameName\<close> is \<open>"Page"\<close> unless a container is met first.
\<close>

fun frameWalk :: "BaseNode list \<Rightarrow> jsstring" where
  "frameWalk [] = js ''Page''"
| "frameWalk (parent # rest) =
     (if base_type parent = ''FRAME'' \<or> base_type parent = ''COMPONENT''
         \<or> base_type parent = ''INSTANCE'' \<or> base_type parent = ''COMPONENT_SET''
      then sanitizeFileName (Some (base_name parent))
      else if base_type parent = ''PAGE'' then js ''Page''
      else frameWalk rest)"

text \<open>
  \<open>addUniqueImage\<close>, returning the two maps. Its \<open>try\<close> block throws on no value of this
  model (every name is a string), so the \<open>catch\<close> has no branch here.
\<close>

definition addUniqueImage ::
  "OperationManager \<Rightarrow> jsstring \<Rightarrow> NodeRef \<Rightarrow> FoundImageInfo list \<times> jsstring list \<Rightarrow> int
     \<Rightarrow> FoundImageInfo list \<times> jsstring list" where
  "addUniqueImage currentOperation imageHash node maps operationId =
     (case maps of (uniqueImages, existingNames) \<Rightarrow>
        if \<not> isActive currentOperation operationId \<or> Map_has uniqueImages imageHash then maps
        else
          let sanitized = sanitizeFileName (Some (node_name (fst node)));
              baseName = (if sanitized = [] then js ''image'' else sanitized);
              uniqueName = nameLoop existingNames baseName baseName 1;
              existingNames' = Set_add existingNames uniqueName;
              frameName = frameWalk (asBase (fst node) # snd node)
          in (Map_set uniqueImages imageHash
                \<lparr>hash = imageHash, name = uniqueName, frame = frameName\<rparr>,
              existingNames'))"

text \<open>
  \<open>checkNodeForImages\<close>: the test \<open>f.type === "IMAGE" && f.imageHash\<close> (a non-empty
  string is truthy), \<open>processPaint\<close>, and the handling of one paint list, for \<open>fills\<close> and
  then for \<open>strokes\<close>.
\<close>

definition isImagePaint :: "Paint \<Rightarrow> bool" where
  "isImagePaint f \<longleftrightarrow>
     paint_type f = ''IMAGE'' \<and> (case paint_imageHash f of None \<Rightarrow> False | Some h \<Rightarrow> h \<noteq> [])"

definition processPaint ::
  "OperationManager \<Rightarrow> NodeRef \<Rightarrow> int \<Rightarrow> FoundImageInfo list \<times> jsstring list \<Rightarrow> Paint
     \<Rightarrow> FoundImageInfo list \<times> jsstring list" where
  "processPaint currentOperation node operationId maps paint =
     (case paint_imageHash paint of
        None \<Rightarrow> maps
      | Some h \<Rightarrow>
          if paint_type paint = ''IMAGE'' \<and> h \<noteq> []
          then addUniqueImage currentOperation h node maps operationId
          else maps)"

definition checkPaints ::
  "OperationManager \<Rightarrow> NodeRef \<Rightarrow> int \<Rightarrow> Paint list option \<Rightarrow> FoundImageInfo list \<times> jsstring list
     \<Rightarrow> FoundImageInfo list \<times> jsstring list" where
  "checkPaints currentOperation node operationId paints maps =
     (case paints of
        None \<Rightarrow> maps
      | Some ps \<Rightarrow>
          if find isImagePaint ps = None then maps
          else foldl (processPaint currentOperation node operationId) maps ps)"

definition checkNodeForImages ::
  "OperationManager \<Rightarrow> NodeRef \<Rightarrow> FoundImageInfo list \<times> jsstring list \<Rightarrow> int
     \<Rightarrow> FoundImageInfo list \<times> jsstring list" where
  "checkNodeForImages currentOperation node maps operationId =
     (if \<not> isActive currentOperation operationId then maps
      else checkPaints currentOperation node operationId (strokes (fst node))
             (checkPaints currentOperation node operationId (fills (fst node)) maps))"

text \<open>The local variables of \<open>scanImages\<close>. The top of \<open>stack\<close> is the end of the list.\<close>

record ScanLocals =
  uniqueImages :: "FoundImageInfo list"
  existingNames :: "jsstring list"
  scannedCount :: nat
  stack :: "NodeRef list"
  totalEstimated :: nat
  lastUpdateTime :: int

definition processNode :: "OperationManager \<Rightarrow> int \<Rightarrow> ScanLocals \<Rightarrow> NodeRef \<Rightarrow> ScanLocals" where
  "processNode currentOperation operationId st node =
     (let maps = checkNodeForImages currentOperation node (uniqueImages st, existingNames st)
                   operationId;
          st1 = st\<lparr>scannedCount := scannedCount st + 1,
                   uniqueImages := fst maps, existingNames := snd maps\<rparr>
      in case children (fst node) of
           None \<Rightarrow> st1
         | Some cs \<Rightarrow>
             st1\<lparr>stack := stack st1 @ rev (childRefs node),
                 totalEstimated := totalEstimated st1 + length cs\<rparr>)"

definition popChunk :: "NodeRef list \<Rightarrow> NodeRef list \<times> NodeRef list" where
  "popChunk stk =
     (let chunkLimit = min (length stk) SCAN_CHUNK_SIZE
      in (take chunkLimit (rev stk), take (length stk - chunkLimit) stk))"

definition processChunk :: "OperationManager \<Rightarrow> int \<Rightarrow> ScanLocals \<Rightarrow> ScanLocals" where
  "processChunk currentOperation operationId st =
     (case popChunk (stack st) of (nodesToProcess, rest) \<Rightarrow>
        foldl (processNode currentOperation operationId) (st\<lparr>stack := rest\<rparr>) nodesToProcess)"

text \<open>The number of nodes still to visit, by which the scan loop terminates.\<close>

fun countNodes :: "SceneNode \<Rightarrow> nat" where
  "countNodes (SceneNode n t f s c) =
     Suc (case c of None \<Rightarrow> 0 | Some cs \<Rightarrow> sum_list (map countNodes cs))"

definition pending :: "NodeRef list \<Rightarrow> nat" where
  "pending stk = sum_list (map (\<lambda>r. countNodes (fst r)) stk)"

lemma pending_append: "pending (xs @ ys) = pending xs + pending ys"
  by (simp add: pending_def)

lemma pending_rev: "pending (rev xs) = pending xs"
  by (simp add: pending_def rev_map[symmetric] sum_list_rev)

lemma pending_childRefs: "Suc (pending (childRefs node)) = countNodes (fst node)"
  by (cases "fst node") (auto simp: childRefs_def pending_def comp_def split: option.splits)

text \<open>What one chunk pushes: the children of each of its nodes, last child first.\<close>

definition pushed :: "NodeRef list \<Rightarrow> NodeRef list" where
  "pushed nodesToProcess = concat (map (\<lambda>node. rev (childRefs node)) nodesToProcess)"

lemma pending_pushed: "pending (pushed ns) + length ns = pending ns"
proof (induction ns)
  case Nil
  show ?case by (simp add: pushed_def pending_def)
next
  case (Cons n ns)
  have "pending (pushed (n # ns)) = pending (childRefs n) + pending (pushed ns)"
    by (simp add: pushed_def pending_append pending_rev)
  moreover have "pending (n # ns) = countNodes (fst n) + pending ns"
    by (simp add: pending_def)
  ultimately show ?case using Cons pending_childRefs[of n] by simp
qed

lemma stack_processNode:
  "stack (processNode cur opId st node) = stack st @ rev (childRefs node)"
  by (simp add: processNode_def childRefs_def Let_def split: option.splits)

lemma stack_foldl_processNode:
  "stack (foldl (processNode cur opId) st ns) = stack st @ pushed ns"
  by (induction ns arbitrary: st) (simp_all add: pushed_def stack_processNode)

lemma popChunk_split:
  "popChunk stk = (chunk, rest) \<Longrightarrow> stk = rest @ rev chunk \<and> (stk \<noteq> [] \<longrightarrow> chunk \<noteq> [])"
proof -
  assume h: "popChunk stk = (chunk, rest)"
  let ?k = "min (length stk) SCAN_CHUNK_SIZE"
  from h have c: "chunk = take ?k (rev stk)" and r: "rest = take (length stk - ?k) stk"
    by (simp_all add: popChunk_def Let_def)
  have "rev chunk = drop (length stk - ?k) stk" unfolding c by (simp add: rev_take)
  with r have "stk = rest @ rev chunk" by simp
  moreover have "stk \<noteq> [] \<longrightarrow> chunk \<noteq> []"
    unfolding c by (cases stk rule: rev_cases) (simp_all add: SCAN_CHUNK_SIZE_def)
  ultimately show ?thesis by simp
qed

lemma stack_processChunk:
  "popChunk (stack st) = (chunk, rest) \<Longrightarrow> stack (processChunk cur opId st) = rest @ pushed chunk"
  by (simp add: processChunk_def stack_foldl_processNode)

lemma pending_step:
  assumes "popChunk stk = (chunk, rest)" "stk \<noteq> []"
  shows "pending (rest @ pushed chunk) < pending stk"
proof -
  from popChunk_split[OF assms(1)] assms(2) have s: "stk = rest @ rev chunk" and ne: "chunk \<noteq> []"
    by auto
  have "pending stk = pending rest + pending chunk"
    by (subst s) (simp add: pending_append pending_rev)
  moreover have "pending (pushed chunk) < pending chunk"
    using pending_pushed[of chunk] ne by (cases chunk) auto
  ultimately show ?thesis by (simp add: pending_append)
qed

lemma pending_processChunk:
  "stack st \<noteq> [] \<Longrightarrow> pending (stack (processChunk cur opId st)) < pending (stack st)"
  by (cases "popChunk (stack st)") (simp add: stack_processChunk pending_step)

text \<open>
  The order in which the loop hands nodes to \<open>checkNodeForImages\<close>: its stack discipline
  alone, without the maps, the clock and the messages.
\<close>

function traversal :: "NodeRef list \<Rightarrow> NodeRef list" where
  "traversal stk =
     (if stk = [] then []
      else case popChunk stk of (nodesToProcess, rest) \<Rightarrow>
        nodesToProcess @ traversal (rest @ pushed nodesToProcess))"
  by pat_completeness auto
termination
  by (relation "measure pending") (simp_all add: pending_step)

declare traversal.simps [simp del]

section \<open>Messages, errors and the scan\<close>

text \<open>The interface \<open>FetchedImageInfo\<close>; its field \<open>size\<close> is written \<open>size'\<close>.\<close>

record FetchedImageInfo = FoundImageInfo +
  bytes :: bytes
  format :: ImageFormat
  size' :: nat
  width :: nat
  height :: nat

text \<open>
  The messages sent to the UI with \<open>figma.ui.postMessage\<close>, and \<open>figma.notify\<close>, in the
  order they are sent. A progress value is computed in floating point by the source and
  is an exact fraction here; an ETA label carries the arguments of \<open>calculateETA\<close>.
\<close>

datatype Phase = StartingScan | Scanning nat | Preparing | FetchingImageData | SendingDataToUI

datatype Total = Count nat | Many

datatype Eta = Calculating | Estimate nat nat int | Done

record DownloadRequest =
  downloadType :: jsstring
  formats :: "jsstring list"
  renamePattern :: jsstring

datatype UiMessage =
    SelectionChanged nat
  | ScanProgress Phase rat nat Total
  | ScanComplete "FoundImageInfo list"
  | DownloadProgress Phase rat nat nat "Eta option"
  | DownloadStart DownloadRequest nat
  | ImagesBatchReady "FetchedImageInfo list"
  | DownloadFinish
  | OperationCancelled
  | ErrorMessage string
  | Notify jsstring

text \<open>The errors thrown to the message handler, with the message each is created with.\<close>

datatype ThrownError = NoFramesSelected | OperationCancelledError

fun message :: "ThrownError \<Rightarrow> string" where
  "message NoFramesSelected = ''No frames selected. Please select frames first.''"
| "message OperationCancelledError = ''Operation cancelled''"

text \<open>\<open>String.prototype.includes\<close> and \<open>getUserFriendlyError\<close> on a thrown \<open>Error\<close>.\<close>

definition String_includes :: "string \<Rightarrow> string \<Rightarrow> bool" where
  "String_includes s sub \<longleftrightarrow> list_ex (\<lambda>i. take (length sub) (drop i s) = sub) [0..<Suc (length s)]"

definition getUserFriendlyError :: "ThrownError \<Rightarrow> string" where
  "getUserFriendlyError error =
     (if String_includes (message error) ''frames selected''
      then ''Please select the frames you want to scan, or switch to 'Entire Page' mode.''
      else if String_includes (message error) ''Operation cancelled''
      then ''The operation was manually cancelled.''
      else message error)"

text \<open>
  The code is single-threaded: \<open>currentOperation\<close> changes under a running call only while
  the call is suspended at an \<open>await\<close>. The environment of a scan gives the clock reading
  at its start and at the end of each chunk, and the calls other handlers make on
  \<open>currentOperation\<close> during the yield after each chunk.
\<close>

datatype OpCall = Start int | Cancel

fun applyCall :: "OperationManager \<Rightarrow> OpCall \<Rightarrow> OperationManager" where
  "applyCall m (Start now) = snd (start now m)"
| "applyCall m Cancel = cancel m"

record ScanEnv =
  startedAt :: int
  clock :: "nat \<Rightarrow> int"
  during :: "nat \<Rightarrow> OpCall list"

text \<open>
  What a scan leaves behind: whether it threw, the messages it posted, the list it
  assigned to \<open>foundImages\<close> (if it did), and \<open>currentOperation\<close>.
\<close>

record ScanRun =
  outcome :: "ThrownError + unit"
  posted :: "UiMessage list"
  published :: "FoundImageInfo list option"
  manager :: OperationManager

text \<open>
  The \<open>while\<close> loop of \<open>scanImages\<close> and what follows it. \<open>k\<close> counts the chunks; a chunk
  that reports progress yields, and the calls made during the yield change
  \<open>currentOperation\<close> before the next chunk.
\<close>

function scanLoop ::
  "ScanEnv \<Rightarrow> int \<Rightarrow> nat \<Rightarrow> OperationManager \<Rightarrow> ScanLocals \<Rightarrow> UiMessage list \<Rightarrow> ScanRun" where
  "scanLoop env operationId k currentOperation st msgs =
     (if stack st = [] then
        \<lparr>outcome = Inr (),
         posted = msgs @ (if isActive currentOperation operationId
                          then [ScanComplete (uniqueImages st)] else []),
         published = Some (uniqueImages st),
         manager = currentOperation\<rparr>
      else if \<not> isActive currentOperation operationId then
        \<lparr>outcome = Inr (), posted = msgs, published = None, manager = currentOperation\<rparr>
      else if clock env k - lastUpdateTime (processChunk currentOperation operationId st)
                > UPDATE_INTERVAL_MS
      then scanLoop env operationId (Suc k)
             (foldl applyCall currentOperation (during env k))
             ((processChunk currentOperation operationId st)\<lparr>lastUpdateTime := clock env k\<rparr>)
             (msgs @ [ScanProgress
                        (Scanning (length (uniqueImages (processChunk currentOperation operationId st))))
                        (min 95 (of_nat (scannedCount (processChunk currentOperation operationId st))
                                 / of_nat (totalEstimated (processChunk currentOperation operationId st))
                                 * 100))
                        (scannedCount (processChunk currentOperation operationId st))
                        Many])
      else scanLoop env operationId (Suc k) currentOperation
             (processChunk currentOperation operationId st) msgs)"
  by pat_completeness auto
termination
  by (relation "measure (\<lambda>(env, operationId, k, currentOperation, st, msgs). pending (stack st))")
     (simp_all add: pending_processChunk)

declare scanLoop.simps [simp del]

text \<open>
  The current page as the scan reads it: its own parent chain (the page, then the
  document), its children, and the selection, each selected node with its parent chain.
\<close>

datatype ScanMode = entire | selected

record CurrentPage =
  page_chain :: "BaseNode list"
  page_children :: "SceneNode list"
  selection :: "NodeRef list"

definition startNodesOf :: "CurrentPage \<Rightarrow> ScanMode \<Rightarrow> NodeRef list" where
  "startNodesOf page scanMode =
     (if scanMode = selected then selection page
      else map (\<lambda>c. (c, page_chain page)) (page_children page))"

definition scanImages ::
  "ScanEnv \<Rightarrow> CurrentPage \<Rightarrow> ScanMode \<Rightarrow> OperationManager \<Rightarrow> int \<Rightarrow> ScanRun" where
  "scanImages env page scanMode currentOperation operationId =
     (if \<not> isActive currentOperation operationId then
        \<lparr>outcome = Inr (), posted = [], published = None, manager = currentOperation\<rparr>
      else if scanMode = selected \<and> selection page = [] then
        \<lparr>outcome = Inl NoFramesSelected,
         posted = [ScanProgress StartingScan 0 0 (Count 100)],
         published = None, manager = currentOperation\<rparr>
      else
        scanLoop env operationId 0 currentOperation
          \<lparr>uniqueImages = [], existingNames = [], scannedCount = 0,
           stack = startNodesOf page scanMode,
           totalEstimated = length (startNodesOf page scanMode) * 5,
           lastUpdateTime = startedAt env\<rparr>
          [ScanProgress StartingScan 0 0 (Count 100)])"

text \<open>The case \<open>"scan-images"\<close> of the message handler, with its \<open>catch\<close>.\<close>

definition onmessage_scan_images ::
  "int \<Rightarrow> ScanEnv \<Rightarrow> CurrentPage \<Rightarrow> ScanMode \<Rightarrow> OperationManager \<Rightarrow> ScanRun" where
  "onmessage_scan_images now env page scanMode currentOperation =
     (case start now currentOperation of (scanOpId, started) \<Rightarrow>
        let run = scanImages env page scanMode started scanOpId
        in case outcome run of
             Inl error \<Rightarrow>
               run\<lparr>outcome := Inr (),
                   posted := posted run @ [ErrorMessage (getUserFriendlyError error)]\<rparr>
           | Inr u \<Rightarrow> run)"


section \<open>The batch fetcher\<close>

text \<open>
  What the host gives one attempt to load an image: \<open>getImageByHash\<close> finds nothing, one of
  the asynchronous accessors rejects, or the size (\<open>width\<close>, \<open>height\<close>) and the bytes arrive.
  An attempt fails with one of three errors; an item fails when its last attempt fails,
  when the operation is found inactive between attempts, or by leaving the retry loop.
\<close>

datatype HostReply = ImageMissing | HostFailure | Loaded nat nat bytes

datatype AttemptError = ImageNotFound | HostError | ImageTooLarge

datatype ItemFailure = FailedAfterAttempts AttemptError | CancelledDuringRetry | ExitedRetryLoop

text \<open>
  The environment of a fetch: the host's reply to attempt \<open>a\<close> for the item at index \<open>j\<close>;
  \<open>currentOperation\<close> as item \<open>j\<close> finds it in the \<open>catch\<close> of attempt \<open>a\<close>, and as the loop
  finds it when it resumes after the batch that starts at \<open>i\<close>; and the time elapsed since
  the start when that batch reports its progress.
\<close>

record FetchEnv =
  host :: "nat \<Rightarrow> nat \<Rightarrow> HostReply"
  seenAtRetry :: "nat \<Rightarrow> nat \<Rightarrow> OperationManager"
  afterBatch :: "nat \<Rightarrow> OperationManager"
  elapsedAt :: "nat \<Rightarrow> int"

text \<open>The body of the \<open>try\<close>: one attempt for one item.\<close>

definition attempt_once :: "FoundImageInfo \<Rightarrow> HostReply \<Rightarrow> AttemptError + FetchedImageInfo" where
  "attempt_once imgInfo reply =
     (case reply of
        ImageMissing \<Rightarrow> Inl ImageNotFound
      | HostFailure \<Rightarrow> Inl HostError
      | Loaded w h bs \<Rightarrow>
          if length bs > MAX_FILE_SIZE then Inl ImageTooLarge
          else Inr \<lparr>hash = hash imgInfo, name = name imgInfo, frame = frame imgInfo,
                    bytes = bs, format = detectImageFormat bs, size' = length bs,
                    width = w, height = h\<rparr>)"

text \<open>The retry loop of one item, \<open>for (attempt = 1; attempt <= MAX_RETRY_ATTEMPTS; attempt++)\<close>.\<close>

function fetchWithRetry ::
  "FetchEnv \<Rightarrow> int \<Rightarrow> nat \<Rightarrow> FoundImageInfo \<Rightarrow> nat \<Rightarrow> ItemFailure + FetchedImageInfo" where
  "fetchWithRetry env operationId j imgInfo attempt =
     (if attempt \<le> MAX_RETRY_ATTEMPTS then
        case attempt_once imgInfo (host env j attempt) of
          Inr v \<Rightarrow> Inr v
        | Inl e \<Rightarrow>
            if attempt = MAX_RETRY_ATTEMPTS then Inl (FailedAfterAttempts e)
            else if \<not> isActive (seenAtRetry env j attempt) operationId then Inl CancelledDuringRetry
            else fetchWithRetry env operationId j imgInfo (attempt + 1)
      else Inl ExitedRetryLoop)"
  by pat_completeness auto
termination
  by (relation "measure (\<lambda>(env, operationId, j, imgInfo, attempt). Suc MAX_RETRY_ATTEMPTS - attempt)")
     auto

declare fetchWithRetry.simps [simp del]

text \<open>
  \<open>Promise.allSettled\<close> over \<open>images.slice(i, i + BATCH_SIZE)\<close>: one result per item, in the
  order of the items; the fulfilled values, and the number of rejected ones.
\<close>

definition batchResults ::
  "FetchEnv \<Rightarrow> int \<Rightarrow> FoundImageInfo list \<Rightarrow> nat \<Rightarrow> (ItemFailure + FetchedImageInfo) list" where
  "batchResults env operationId images i =
     map (\<lambda>(j, imgInfo). fetchWithRetry env operationId j imgInfo 1)
       (enumerate i (take BATCH_SIZE (drop i images)))"

definition fulfilled :: "(ItemFailure + FetchedImageInfo) list \<Rightarrow> FetchedImageInfo list" where
  "fulfilled results = List.map_filter (\<lambda>res. case res of Inr v \<Rightarrow> Some v | Inl e \<Rightarrow> None) results"

definition rejected :: "(ItemFailure + FetchedImageInfo) list \<Rightarrow> nat" where
  "rejected results = length (filter (\<lambda>res. case res of Inr v \<Rightarrow> False | Inl e \<Rightarrow> True) results)"

text \<open>
  \<open>calculateETA\<close> decides on the sample count and otherwise formats a floating-point
  estimate; the label of the estimate carries the three arguments it is computed from.
\<close>

definition calculateETA :: "nat \<Rightarrow> nat \<Rightarrow> int \<Rightarrow> Eta" where
  "calculateETA current total' elapsed =
     (if current < MIN_ETA_SAMPLES then Calculating else Estimate current total' elapsed)"

text \<open>The messages posted for the batch that starts at \<open>i\<close>.\<close>

definition batchMessages :: "FetchEnv \<Rightarrow> int \<Rightarrow> FoundImageInfo list \<Rightarrow> nat \<Rightarrow> UiMessage list" where
  "batchMessages env operationId images i =
     (let total' = length images;
          fetchedBatch = fulfilled (batchResults env operationId images i);
          processed = min (i + BATCH_SIZE) total'
      in (if length fetchedBatch > 0 then [ImagesBatchReady fetchedBatch] else [])
         @ [DownloadProgress FetchingImageData (of_nat processed / of_nat total' * 100)
              processed total' (Some (calculateETA processed total' (elapsedAt env i)))])"

text \<open>The text of the aggregated warning of \<open>figma.notify\<close>.\<close>

definition warning :: "nat \<Rightarrow> jsstring" where
  "warning failedCount =
     js ''Warning: '' @ numberToString failedCount
     @ js '' images failed to download or were too large, even after retries. Max size is ''
     @ numberToString (MAX_FILE_SIZE div 1024 div 1024) @ js ''MB.''"

text \<open>
  What a fetch leaves behind: whether it threw, the messages it posted and the final
  value of \<open>failedCount\<close>.
\<close>

record FetchRun =
  fetch_outcome :: "ThrownError + unit"
  fetch_posted :: "UiMessage list"
  fetch_failed :: nat

function fetchLoop ::
  "FetchEnv \<Rightarrow> FoundImageInfo list \<Rightarrow> int \<Rightarrow> nat \<Rightarrow> OperationManager \<Rightarrow> nat \<Rightarrow> UiMessage list
     \<Rightarrow> FetchRun" where
  "fetchLoop env images operationId i currentOperation failedCount msgs =
     (if i < length images then
        if \<not> isActive currentOperation operationId then
          \<lparr>fetch_outcome = Inl OperationCancelledError, fetch_posted = msgs,
           fetch_failed = failedCount\<rparr>
        else
          fetchLoop env images operationId (i + BATCH_SIZE) (afterBatch env i)
            (failedCount + rejected (batchResults env operationId images i))
            (msgs @ batchMessages env operationId images i)
      else
        \<lparr>fetch_outcome = Inr (),
         fetch_posted =
           msgs
           @ (if failedCount > 0 then [Notify (warning failedCount)] else [])
           @ (if isActive currentOperation operationId
              then [DownloadProgress SendingDataToUI 100 (length images - failedCount)
                      (length images) (Some Done),
                    DownloadFinish]
              else []),
         fetch_failed = failedCount\<rparr>)"
  by pat_completeness auto
termination
  by (relation "measure (\<lambda>(env, images, operationId, i, currentOperation, failedCount, msgs).
        length images - i)")
     (auto simp: BATCH_SIZE_def)

declare fetchLoop.simps [simp del]

definition fetchImageBytes ::
  "FetchEnv \<Rightarrow> FoundImageInfo list \<Rightarrow> int \<Rightarrow> DownloadRequest \<Rightarrow> OperationManager \<Rightarrow> FetchRun" where
  "fetchImageBytes env images operationId msg currentOperation =
     (if \<not> isActive currentOperation operationId then
        \<lparr>fetch_outcome = Inr (), fetch_posted = [], fetch_failed = 0\<rparr>
      else
        fetchLoop env images operationId 0 currentOperation 0
          [DownloadProgress Preparing 0 0 (length images) None,
           DownloadStart msg (length images)])"


section \<open>Vocabulary of the scanner's properties\<close>

text \<open>
  The hashes for which \<open>checkNodeForImages\<close> calls \<open>addUniqueImage\<close> at a node, in call
  order: the image paints of its fills, then of its strokes.
\<close>

definition paintHashes :: "Paint list option \<Rightarrow> jsstring list" where
  "paintHashes paints =
     (case paints of
        None \<Rightarrow> []
      | Some ps \<Rightarrow> List.map_filter (\<lambda>p. if isImagePaint p then paint_imageHash p else None) ps)"

definition imageRefs :: "SceneNode \<Rightarrow> jsstring list" where
  "imageRefs n = paintHashes (fills n) @ paintHashes (strokes n)"

text \<open>The image references met along a list of nodes, each with the node it is met at.\<close>

definition references :: "NodeRef list \<Rightarrow> (jsstring \<times> NodeRef) list" where
  "references nodes = concat (map (\<lambda>node. map (\<lambda>h. (h, node)) (imageRefs (fst node))) nodes)"

text \<open>The base name and the entry \<open>addUniqueImage\<close> makes for a hash met at a node, given the
  names taken so far.\<close>

definition baseNameOf :: "NodeRef \<Rightarrow> jsstring" where
  "baseNameOf node = sanitizeFileName (Some (node_name (fst node)))"

definition entryFor :: "jsstring list \<Rightarrow> jsstring \<Rightarrow> NodeRef \<Rightarrow> FoundImageInfo" where
  "entryFor names h node =
     \<lparr>hash = h,
      name = nameLoop names (baseNameOf node) (baseNameOf node) 1,
      frame = frameWalk (asBase (fst node) # snd node)\<rparr>"

text \<open>The invariant of the two maps of a scan.\<close>

definition okMaps :: "FoundImageInfo list \<times> jsstring list \<Rightarrow> bool" where
  "okMaps m \<longleftrightarrow> snd m = map name (fst m) \<and> distinct (map hash (fst m)) \<and> distinct (map name (fst m))"

text \<open>One call of \<open>addUniqueImage\<close> under the one manager state in which \<open>operationId\<close> is
  active, and the registration of all references of a list of nodes.\<close>

definition register :: "int \<Rightarrow> FoundImageInfo list \<times> jsstring list \<Rightarrow> jsstring \<times> NodeRef
    \<Rightarrow> FoundImageInfo list \<times> jsstring list" where
  "register opId m r = addUniqueImage \<lparr>id' = opId, cancelled = False\<rparr> (fst r) (snd r) m opId"

definition registerAll :: "int \<Rightarrow> FoundImageInfo list \<times> jsstring list \<Rightarrow> NodeRef list
    \<Rightarrow> FoundImageInfo list \<times> jsstring list" where
  "registerAll opId m nodes = foldl (register opId) m (references nodes)"

text \<open>The two maps among the locals of a scan.\<close>

definition mapsOf :: "ScanLocals \<Rightarrow> FoundImageInfo list \<times> jsstring list" where
  "mapsOf st = (uniqueImages st, existingNames st)"

text \<open>The node types at which the ancestor walk stops with a container name.\<close>

definition containerTypes :: "string set" where
  "containerTypes = {''FRAME'', ''COMPONENT'', ''INSTANCE'', ''COMPONENT_SET''}"

subsection \<open>Example documents\<close>

text \<open>
  An environment in which the clock stands still and no other handler runs, and pages
  for the scenarios of the properties below.
\<close>

definition quietEnv :: ScanEnv where
  "quietEnv = \<lparr>startedAt = 0, clock = (\<lambda>k. 0), during = (\<lambda>k. [])\<rparr>"

definition activeManager :: OperationManager where
  "activeManager = \<lparr>id' = 1000, cancelled = False\<rparr>"

definition iconNode :: SceneNode where
  "iconNode = SceneNode (js ''Icon'') ''RECTANGLE'' (Some [Paint ''IMAGE'' (Some (js ''H1''))]) (Some []) None"

definition plainNode :: SceneNode where
  "plainNode = SceneNode (js ''Label'') ''TEXT'' (Some [Paint ''SOLID'' None]) (Some []) None"

definition groupNode :: SceneNode where
  "groupNode = SceneNode (js ''Group'') ''GROUP'' None None (Some [plainNode, iconNode, plainNode])"

definition heroNode :: SceneNode where
  "heroNode = SceneNode (js ''Hero'') ''FRAME'' (Some [Paint ''SOLID'' None]) (Some []) (Some [groupNode])"

definition heroPage :: CurrentPage where
  "heroPage = \<lparr>page_chain = [BaseNode ''PAGE'' (js ''Page 1''), BaseNode ''DOCUMENT'' (js ''Document'')],
               page_children = [heroNode], selection = []\<rparr>"

definition buttonNode :: SceneNode where
  "buttonNode = SceneNode (js ''Btn'') ''INSTANCE'' (Some []) (Some []) (Some [iconNode])"

definition buttonPage :: CurrentPage where
  "buttonPage =
     \<lparr>page_chain = [BaseNode ''PAGE'' (js ''Page 1''), BaseNode ''DOCUMENT'' (js ''Document'')],
      page_children =
        [SceneNode (js ''Hero'') ''FRAME'' (Some [Paint ''SOLID'' None]) (Some [])
           (Some [buttonNode])],
      selection = []\<rparr>"

definition namedImage :: "string \<Rightarrow> string \<Rightarrow> SceneNode" where
  "namedImage n h = SceneNode (js n) ''RECTANGLE'' (Some [Paint ''IMAGE'' (Some (js h))]) (Some []) None"

definition collidingPage :: CurrentPage where
  "collidingPage =
     \<lparr>page_chain = [BaseNode ''PAGE'' (js ''Page 1''), BaseNode ''DOCUMENT'' (js ''Document'')],
      page_children =
        [SceneNode (js ''Hero'') ''FRAME'' (Some [Paint ''SOLID'' None]) (Some [])
           (Some [namedImage ''a'' ''H1'', namedImage ''a'' ''H2'', namedImage ''a_1'' ''H3'',
                  namedImage ''b'' ''H1''])],
      selection = []\<rparr>"

definition collidingImages :: "FoundImageInfo list" where
  "collidingImages =
     [\<lparr>hash = js ''H1'', name = js ''a'', frame = js ''Hero''\<rparr>,
      \<lparr>hash = js ''H2'', name = js ''a_1'', frame = js ''Hero''\<rparr>,
      \<lparr>hash = js ''H3'', name = js ''a_1_1'', frame = js ''Hero''\<rparr>]"

definition emptySelectionPage :: CurrentPage where
  "emptySelectionPage =
     \<lparr>page_chain = [BaseNode ''PAGE'' (js ''Page 1''), BaseNode ''DOCUMENT'' (js ''Document'')],
      page_children = [heroNode], selection = []\<rparr>"

text \<open>A name of 256 code units: 254 letters \<open>a\<close>, a space and a letter \<open>b\<close>.\<close>

definition long_name :: jsstring where
  "long_name = replicate 254 0x61 @ [0x20, 0x62]"



section \<open>Vocabulary of the fetcher's properties\<close>

text \<open>
  The indices at which the batches of \<open>n\<close> images start; the images of all batch-ready
  messages of a trace, in order; and the two kinds of message a batch posts.
\<close>

definition batchStarts :: "nat \<Rightarrow> nat list" where
  "batchStarts n = map (\<lambda>b. b * BATCH_SIZE) [0..<(n + BATCH_SIZE - 1) div BATCH_SIZE]"

fun readyImages :: "UiMessage list \<Rightarrow> FetchedImageInfo list" where
  "readyImages [] = []"
| "readyImages (ImagesBatchReady imgs # msgs) = imgs @ readyImages msgs"
| "readyImages (m # msgs) = readyImages msgs"

fun isBatchEvent :: "UiMessage \<Rightarrow> bool" where
  "isBatchEvent (ImagesBatchReady imgs) = True"
| "isBatchEvent (DownloadProgress FetchingImageData p c t e) = True"
| "isBatchEvent m = False"

text \<open>The batch starts that remain from index \<open>i\<close> on, as the loop counts them.\<close>

function startsFrom :: "nat \<Rightarrow> nat \<Rightarrow> nat list" where
  "startsFrom n i = (if i < n then i # startsFrom n (i + BATCH_SIZE) else [])"
  by pat_completeness auto
termination
  by (relation "measure (\<lambda>(n, i). n - i)") (auto simp: BATCH_SIZE_def)

declare startsFrom.simps [simp del]

text \<open>The last two messages of a fetch that is still active at its end.\<close>

definition finalMessages :: "FoundImageInfo list \<Rightarrow> nat \<Rightarrow> UiMessage list" where
  "finalMessages images failedCount =
     [DownloadProgress SendingDataToUI 100 (length images - failedCount) (length images) (Some Done),
      DownloadFinish]"

subsection \<open>Example downloads\<close>

text \<open>
  Three images of which the second is one byte over the size ceiling, and a single image
  that the host does not find; no other handler runs.
\<close>

definition threeImages :: "FoundImageInfo list" where
  "threeImages =
     [\<lparr>hash = js ''H1'', name = js ''a'', frame = js ''Hero''\<rparr>,
      \<lparr>hash = js ''H2'', name = js ''big'', frame = js ''Hero''\<rparr>,
      \<lparr>hash = js ''H3'', name = js ''c'', frame = js ''Page''\<rparr>]"

definition oversizeEnv :: FetchEnv where
  "oversizeEnv =
     \<lparr>host = (\<lambda>j a. if j = 1 then Loaded 4000 4000 (replicate (MAX_FILE_SIZE + 1) 0)
                     else Loaded 2 2 [0x89, 0x50, 0x4e, 0x47]),
      seenAtRetry = (\<lambda>j a. activeManager),
      afterBatch = (\<lambda>i. activeManager),
      elapsedAt = (\<lambda>i. 0)\<rparr>"

definition missingEnv :: FetchEnv where
  "missingEnv =
     \<lparr>host = (\<lambda>j a. ImageMissing),
      seenAtRetry = (\<lambda>j a. activeManager),
      afterBatch = (\<lambda>i. activeManager),
      elapsedAt = (\<lambda>i. 0)\<rparr>"

definition request :: DownloadRequest where
  "request = \<lparr>downloadType = js ''zip'', formats = [js ''png''], renamePattern = js ''{name}''\<rparr>"

definition pngOf :: "FoundImageInfo \<Rightarrow> FetchedImageInfo" where
  "pngOf imgInfo =
     \<lparr>hash = hash imgInfo, name = name imgInfo, frame = frame imgInfo,
      bytes = [0x89, 0x50, 0x4e, 0x47], format = PNG, size' = 4, width = 2, height = 2\<rparr>"


section \<open>Properties of the format sniffer\<close>

lemma take2_conv:
  "4 \<le> length bs \<Longrightarrow> take 2 bs = [bs ! 0, bs ! 1]"
  by (cases bs; cases "tl bs") (auto simp: numeral_2_eq_2)

text \<open>
  C6. \<open>detectImageFormat\<close> is a total function with exactly the five labels as values
  (\<open>bin\<close> is the unknown label): fewer than four bytes give \<open>bin\<close>; with at least four
  bytes the prefixes 89 50, FF D8, 52 49 and 47 49 give PNG, JPG, WEBP and GIF; every
  other buffer gives \<open>bin\<close>.
\<close>

theorem detectImageFormat_labels:
  "detectImageFormat bs \<in> {PNG, JPG, WEBP, GIF, bin}
   \<and> (length bs < 4 \<longrightarrow> detectImageFormat bs = bin)
   \<and> (4 \<le> length bs \<and> take 2 bs = [0x89, 0x50] \<longrightarrow> detectImageFormat bs = PNG)
   \<and> (4 \<le> length bs \<and> take 2 bs = [0xff, 0xd8] \<longrightarrow> detectImageFormat bs = JPG)
   \<and> (4 \<le> length bs \<and> take 2 bs = [0x52, 0x49] \<longrightarrow> detectImageFormat bs = WEBP)
   \<and> (4 \<le> length bs \<and> take 2 bs = [0x47, 0x49] \<longrightarrow> detectImageFormat bs = GIF)
   \<and> (4 \<le> length bs \<and> take 2 bs \<notin> {[0x89, 0x50], [0xff, 0xd8], [0x52, 0x49], [0x47, 0x49]}
        \<longrightarrow> detectImageFormat bs = bin)"
proof (cases "length bs < 4")
  case True
  then show ?thesis by (simp add: detectImageFormat_def)
next
  case False
  then have "take 2 bs = [bs ! 0, bs ! 1]" by (simp add: take2_conv)
  then show ?thesis using False by (simp add: detectImageFormat_def)
qed

theorem detectImageFormat_labels_witness:
  "detectImageFormat [] = bin
   \<and> detectImageFormat [0x89, 0x50, 0x4e] = bin
   \<and> detectImageFormat [0x89, 0x50, 0x4e, 0x47] = PNG
   \<and> detectImageFormat [0xff, 0xd8, 0xff, 0xe0] = JPG
   \<and> detectImageFormat [0x52, 0x49, 0x46, 0x46] = WEBP
   \<and> detectImageFormat [0x47, 0x49, 0x46, 0x38] = GIF
   \<and> detectImageFormat [0x42, 0x4d, 0x00, 0x00] = bin"
  using detectImageFormat_labels [of "[]"]
    detectImageFormat_labels [of "[0x89, 0x50, 0x4e]"]
    detectImageFormat_labels [of "[0x89, 0x50, 0x4e, 0x47]"]
    detectImageFormat_labels [of "[0xff, 0xd8, 0xff, 0xe0]"]
    detectImageFormat_labels [of "[0x52, 0x49, 0x46, 0x46]"]
    detectImageFormat_labels [of "[0x47, 0x49, 0x46, 0x38]"]
    detectImageFormat_labels [of "[0x42, 0x4d, 0x00, 0x00]"]
  by simp

text \<open>
  C9. On buffers of at least four bytes the label depends on bytes 0 and 1 only: two
  such buffers with the same first two bytes get the same label, and any such buffer
  starting 52 49 is WEBP whatever follows; a buffer of at most three bytes is \<open>bin\<close>
  even when its first two bytes are a known signature.
\<close>

theorem detectImageFormat_two_bytes:
  "(4 \<le> length a \<and> 4 \<le> length b \<and> take 2 a = take 2 b
      \<longrightarrow> detectImageFormat a = detectImageFormat b)
   \<and> (2 \<le> length rest \<longrightarrow> detectImageFormat (0x52 # 0x49 # rest) = WEBP)
   \<and> (length c \<le> 3 \<longrightarrow> detectImageFormat c = bin)"
proof (intro conjI impI)
  assume h: "4 \<le> length a \<and> 4 \<le> length b \<and> take 2 a = take 2 b"
  then have "take 2 a = [a ! 0, a ! 1]" and "take 2 b = [b ! 0, b ! 1]"
    using take2_conv by blast+
  with h have "[a ! 0, a ! 1] = [b ! 0, b ! 1]" by metis
  then have "a ! 0 = b ! 0 \<and> a ! 1 = b ! 1" by simp
  with h show "detectImageFormat a = detectImageFormat b"
    by (simp add: detectImageFormat_def)
next
  assume "2 \<le> length rest"
  then show "detectImageFormat (0x52 # 0x49 # rest) = WEBP"
    by (simp add: detectImageFormat_def)
next
  assume "length c \<le> 3"
  then show "detectImageFormat c = bin" by (simp add: detectImageFormat_def)
qed

theorem detectImageFormat_two_bytes_witness:
  "detectImageFormat [0x52, 0x49, 0x46, 0x46] = detectImageFormat [0x52, 0x49, 0x00, 0x01, 0x02]
   \<and> detectImageFormat [0x52, 0x49, 0xde, 0xad] = WEBP
   \<and> detectImageFormat [0x52, 0x49, 0x46] = bin"
  using detectImageFormat_two_bytes
    [of "[0x52, 0x49, 0x46, 0x46]" "[0x52, 0x49, 0x00, 0x01, 0x02]" "[0xde, 0xad]" "[0x52, 0x49, 0x46]"]
  by simp


section \<open>Properties of the operation token manager\<close>

text \<open>
  C3, as amended. Immediately after a later \<open>start\<close> whose token differs from \<open>t\<close> (its
  clock reading is not \<open>t\<close>), \<open>isActive t\<close> is false; and in every state of the manager
  any two tokens that are both active are the same number.
\<close>

theorem start_invalidates_other_tokens:
  "(start now m = (t', m') \<and> t' \<noteq> t \<longrightarrow> \<not> isActive m' t)
   \<and> (isActive m a \<and> isActive m b \<longrightarrow> a = b)"
  by (auto simp: start_def isActive_def)

theorem start_invalidates_other_tokens_witness:
  "\<not> isActive (snd (start 1001 (snd (start 1000 new_OperationManager)))) 1000
   \<and> isActive (snd (start 1001 (snd (start 1000 new_OperationManager)))) 1001"
  using start_invalidates_other_tokens
    [of 1001 "snd (start 1000 new_OperationManager)" 1001
        "snd (start 1001 (snd (start 1000 new_OperationManager)))" 1000]
  by (simp add: start_def isActive_def new_OperationManager_def)

text \<open>
  The claim as stated fails when the clock gives the same reading twice: the token
  returned by the first \<open>start\<close> is returned again by the second, and it is still active.
\<close>

theorem start_same_clock_reading_counterexample:
  "fst (start 1000 new_OperationManager) = 1000
   \<and> fst (start 1000 (snd (start 1000 new_OperationManager))) = 1000
   \<and> isActive (snd (start 1000 (snd (start 1000 new_OperationManager)))) 1000"
  by (simp add: start_def isActive_def new_OperationManager_def)


section \<open>Properties of the name sanitizer\<close>

lemma js_image: "js ''image'' = [0x69, 0x6d, 0x61, 0x67, 0x65]"
  by (simp add: js_def)

lemma replace_illegal_clean: "\<not> illegal c" if "c \<in> set (replace_illegal s)"
  using that by (auto simp: replace_illegal_def illegal_def)

lemma replace_illegal_id: "(\<And>c. c \<in> set s \<Longrightarrow> \<not> illegal c) \<Longrightarrow> replace_illegal s = s"
  by (induction s) (auto simp: replace_illegal_def)

lemma set_trim: "set (trim s) \<subseteq> set s"
proof -
  have "set (dropWhile isWhiteSpace (rev (dropWhile isWhiteSpace s))) \<subseteq> set (rev (dropWhile isWhiteSpace s))"
    by (rule set_dropWhileD[THEN subsetI]) 
  also have "\<dots> \<subseteq> set s" using set_dropWhileD by fastforce
  finally show ?thesis by (simp add: trim_def)
qed

lemma hd_trim: "trim s \<noteq> [] \<Longrightarrow> \<not> isWhiteSpace (hd (trim s))"
proof -
  assume ne: "trim s \<noteq> []"
  let ?d = "dropWhile isWhiteSpace s"
  have dne: "?d \<noteq> []"
  proof
    assume "?d = []"
    then have "trim s = []" unfolding trim_def by (simp del: dropWhile_eq_Nil_conv)
    with ne show False by simp
  qed
  then have h: "\<not> isWhiteSpace (hd ?d)" by (rule hd_dropWhile)
  have "rev ?d = rev (tl ?d) @ [hd ?d]" using dne by (cases ?d) auto
  then have "dropWhile isWhiteSpace (rev ?d) = dropWhile isWhiteSpace (rev (tl ?d)) @ [hd ?d]"
    using h by (simp add: dropWhile_append3 dropWhile_append)
  then have "trim s = hd ?d # rev (dropWhile isWhiteSpace (rev (tl ?d)))"
    by (simp add: trim_def)
  with h show ?thesis by simp
qed

lemma trim_when_hd: "s \<noteq> [] \<Longrightarrow> \<not> isWhiteSpace (hd s) \<Longrightarrow>
   trim s = rev (dropWhile isWhiteSpace (rev s)) \<and> trim s \<noteq> []"
  by (cases s) (auto simp: trim_def dropWhile_append)

lemma rev_dropWhile_rev_id: "s \<noteq> [] \<Longrightarrow> rev (dropWhile P (rev s)) = s \<longleftrightarrow> \<not> P (last s)"
proof (cases s rule: rev_cases)
  case Nil
  then show "s \<noteq> [] \<Longrightarrow> ?thesis" by simp
next
  case (snoc ys y)
  have "length (dropWhile P (rev ys)) \<le> length ys"
    using length_dropWhile_le[of P "rev ys"] by simp
  then have "rev (dropWhile P (rev ys)) \<noteq> ys @ [y]"
    by (metis length_rev length_append_singleton Suc_n_not_le_n)
  then show ?thesis using snoc by auto
qed

lemma substring_0: "substring s 0 n = take n s"
  by (simp add: substring_def)

lemma sanitizeFileName_shape:
  "sanitizeFileName x \<noteq> []
   \<and> (\<forall>c \<in> set (sanitizeFileName x). \<not> illegal c)
   \<and> \<not> isWhiteSpace (hd (sanitizeFileName x))
   \<and> length (sanitizeFileName x) \<le> 255"
proof -
  have img: "js ''image'' \<noteq> [] \<and> (\<forall>c \<in> set (js ''image''). \<not> illegal c)
      \<and> \<not> isWhiteSpace (hd (js ''image'')) \<and> length (js ''image'') \<le> 255"
    by (simp add: js_image illegal_def isWhiteSpace_def)
  show ?thesis
  proof (cases "\<exists>n. x = Some n \<and> n \<noteq> [] \<and> take 255 (trim (replace_illegal n)) \<noteq> []")
    case False
    then have "sanitizeFileName x = js ''image''"
      by (auto simp: sanitizeFileName_def substring_0 Let_def split: option.splits)
    with img show ?thesis by simp
  next
    case True
    then obtain n where n: "x = Some n" "n \<noteq> []" "take 255 (trim (replace_illegal n)) \<noteq> []"
      by blast
    let ?t = "trim (replace_illegal n)"
    have eq: "sanitizeFileName x = take 255 ?t"
      using n by (simp add: sanitizeFileName_def substring_0 Let_def)
    have tne: "?t \<noteq> []" using n(3) by auto
    have "set (take 255 ?t) \<subseteq> set (replace_illegal n)"
      using set_take_subset set_trim by fastforce
    then have clean: "\<forall>c \<in> set (take 255 ?t). \<not> illegal c"
      using replace_illegal_clean by blast
    have "hd (take 255 ?t) = hd ?t" by (cases ?t) simp_all
    then have "\<not> isWhiteSpace (hd (take 255 ?t))" using hd_trim[OF tne] by simp
    then show ?thesis using eq n(3) clean by simp
  qed
qed

lemma sanitizeFileName_again:
  "sanitizeFileName (Some (sanitizeFileName x)) = rev (dropWhile isWhiteSpace (rev (sanitizeFileName x)))"
proof -
  let ?y = "sanitizeFileName x"
  have sh: "?y \<noteq> []" "\<And>c. c \<in> set ?y \<Longrightarrow> \<not> illegal c" "\<not> isWhiteSpace (hd ?y)" "length ?y \<le> 255"
    using sanitizeFileName_shape[of x] by auto
  have r: "replace_illegal ?y = ?y" using sh(2) by (rule replace_illegal_id)
  have t: "trim ?y = rev (dropWhile isWhiteSpace (rev ?y))" "trim ?y \<noteq> []"
    using trim_when_hd[OF sh(1) sh(3)] by auto
  have "length (trim ?y) \<le> 255"
    using t(1) sh(4) length_dropWhile_le[of isWhiteSpace "rev ?y"] by simp
  then have "take 255 (trim ?y) = trim ?y" by simp
  then show ?thesis using sh(1) r t
    by (auto simp add: sanitizeFileName_def[of "Some ?y"] substring_0 Let_def)
qed

text \<open>
  C5, as amended. Sanitizing a sanitized name gives the same name exactly when the
  sanitized name does not end in a white space code unit; this is the case whenever
  the replaced and trimmed name has at most 255 code units (nothing is cut off), and
  for the absent name.
\<close>

theorem sanitizeFileName_idempotent_iff:
  "(sanitizeFileName (Some (sanitizeFileName x)) = sanitizeFileName x
      \<longleftrightarrow> \<not> isWhiteSpace (last (sanitizeFileName x)))
   \<and> (x = Some n \<and> length (trim (replace_illegal n)) \<le> 255
      \<longrightarrow> sanitizeFileName (Some (sanitizeFileName x)) = sanitizeFileName x)
   \<and> sanitizeFileName (Some (sanitizeFileName None)) = sanitizeFileName None"
proof (intro conjI impI)
  have ne: "sanitizeFileName x \<noteq> []" using sanitizeFileName_shape[of x] by simp
  show iff: "sanitizeFileName (Some (sanitizeFileName x)) = sanitizeFileName x
      \<longleftrightarrow> \<not> isWhiteSpace (last (sanitizeFileName x))"
    unfolding sanitizeFileName_again using rev_dropWhile_rev_id[OF ne] .
  show "sanitizeFileName (Some (sanitizeFileName None)) = sanitizeFileName None"
    by (simp add: sanitizeFileName_def js_image substring_0 trim_def replace_illegal_def
        illegal_def isWhiteSpace_def Let_def)
  assume h: "x = Some n \<and> length (trim (replace_illegal n)) \<le> 255"
  let ?t = "trim (replace_illegal n)"
  have "\<not> isWhiteSpace (last (sanitizeFileName x))"
  proof (cases "n = [] \<or> ?t = []")
    case True
    then have "sanitizeFileName x = js ''image''"
      using h by (auto simp: sanitizeFileName_def substring_0 Let_def)
    then show ?thesis by (simp add: js_image isWhiteSpace_def)
  next
    case False
    then have eq: "sanitizeFileName x = ?t"
      using h by (simp add: sanitizeFileName_def substring_0 Let_def)
    have "rev ?t = dropWhile isWhiteSpace (rev (dropWhile isWhiteSpace (replace_illegal n)))"
      by (simp add: trim_def)
    moreover have "rev ?t \<noteq> []" using False by simp
    ultimately have "\<not> isWhiteSpace (hd (rev ?t))" by (metis hd_dropWhile)
    then show ?thesis using eq False by (simp add: hd_rev)
  qed
  with iff show "sanitizeFileName (Some (sanitizeFileName x)) = sanitizeFileName x" by simp
qed

theorem sanitizeFileName_idempotent_iff_witness:
  "sanitizeFileName (Some (sanitizeFileName (Some (js '' a:b/c ''))))
     = sanitizeFileName (Some (js '' a:b/c ''))
   \<and> sanitizeFileName (Some (js '' a:b/c '')) = js ''a_b_c''"
  using sanitizeFileName_idempotent_iff [of "Some (js '' a:b/c '')" "js '' a:b/c ''"]
  by (simp add: sanitizeFileName_def js_def substring_0 trim_def replace_illegal_def
      illegal_def isWhiteSpace_def Let_def)

text \<open>
  The claim as stated fails where the cut at 255 code units falls right after an inner
  space: 254 letters \<open>a\<close>, a space and a letter \<open>b\<close> are sanitized to 254 letters and the
  space, and sanitizing that again trims the space.
\<close>


lemma sanitize_long_name: "sanitizeFileName (Some long_name) = replicate 254 0x61 @ [0x20]"
  by (simp add: sanitizeFileName_def long_name_def substring_def trim_def replace_illegal_def
      illegal_def isWhiteSpace_def Let_def)

lemma sanitize_long_name_twice:
  "sanitizeFileName (Some (replicate 254 0x61 @ [0x20])) = replicate 254 0x61"
  by (simp add: sanitizeFileName_def substring_def trim_def replace_illegal_def
      illegal_def isWhiteSpace_def Let_def)

theorem sanitizeFileName_not_idempotent_counterexample:
  "sanitizeFileName (Some (sanitizeFileName (Some long_name))) \<noteq> sanitizeFileName (Some long_name)"
  unfolding sanitize_long_name sanitize_long_name_twice by simp


section \<open>Properties of the tree scanner\<close>

lemma isActive_eq: "isActive m opId \<longleftrightarrow> m = \<lparr>id' = opId, cancelled = False\<rparr>"
  by (cases m) (auto simp: isActive_def)

lemma nameLoop_free: "nameLoop names b u c \<notin> set names"
  by (induction names b u c rule: nameLoop.induct) (subst nameLoop.simps, simp)

lemma nameLoop_taken:
  "u \<in> set names \<Longrightarrow> nameLoop names b u c = suffixed b (firstFree names b c)"
proof (induction names b u c rule: nameLoop.induct)
  case (1 names b u c)
  show ?case
  proof (cases "suffixed b c \<in> set names")
    case True
    then show ?thesis
      using 1 by (subst nameLoop.simps) (simp add: firstFree_next)
  next
    case False
    then have "nameLoop names b (suffixed b c) (c + 1) = suffixed b c"
      by (subst nameLoop.simps) simp
    then show ?thesis
      using 1(2) False by (subst nameLoop.simps) (simp add: firstFree_here)
  qed
qed

lemma nameLoop_untaken: "u \<notin> set names \<Longrightarrow> nameLoop names b u c = u"
  by (subst nameLoop.simps) simp

lemma sanitizeFileName_ne: "sanitizeFileName x \<noteq> []"
  using sanitizeFileName_shape[of x] by simp

lemma addUniqueImage_new:
  assumes "isActive cur opId" "h \<notin> hash ` set imgs"
  shows "addUniqueImage cur h node (imgs, names) opId
           = (imgs @ [entryFor names h node], names @ [name (entryFor names h node)])"
  using assms nameLoop_free[of names "baseNameOf node" "baseNameOf node" 1]
  by (simp add: addUniqueImage_def Map_has_def Map_set_def Set_add_def Set_has_def Let_def
      entryFor_def baseNameOf_def sanitizeFileName_ne)

lemma addUniqueImage_old:
  "\<not> isActive cur opId \<or> h \<in> hash ` set (fst m) \<Longrightarrow> addUniqueImage cur h node m opId = m"
  by (cases m) (auto simp: addUniqueImage_def Map_has_def)

lemma addUniqueImage_ok:
  assumes "okMaps m"
  shows "okMaps (addUniqueImage cur h node m opId)"
proof (cases "\<not> isActive cur opId \<or> h \<in> hash ` set (fst m)")
  case True
  then show ?thesis using assms by (simp add: addUniqueImage_old)
next
  case False
  obtain imgs names where m: "m = (imgs, names)" by (cases m)
  have "name (entryFor names h node) \<notin> set names"
    by (simp add: entryFor_def nameLoop_free)
  moreover have "hash (entryFor names h node) = h" by (simp add: entryFor_def)
  ultimately show ?thesis
    using False assms unfolding m by (auto simp add: addUniqueImage_new okMaps_def)
qed

lemma register_ok: "okMaps m \<Longrightarrow> okMaps (register opId m r)"
  by (simp add: register_def addUniqueImage_ok)

lemma register_hashes:
  "okMaps m \<Longrightarrow> hash ` set (fst (register opId m r)) = insert (fst r) (hash ` set (fst m))"
proof (cases "fst r \<in> hash ` set (fst m)")
  case True
  then show ?thesis by (auto simp: register_def addUniqueImage_old)
next
  case False
  assume "okMaps m"
  obtain imgs names where m: "m = (imgs, names)" by (cases m)
  show ?thesis using False unfolding m register_def
    by (simp add: addUniqueImage_new isActive_eq entryFor_def)
qed

lemma register_extends: "\<exists>ext. fst (register opId m r) = fst m @ ext"
proof (cases "fst r \<in> hash ` set (fst m)")
  case True
  then show ?thesis by (auto simp: register_def addUniqueImage_old)
next
  case False
  obtain imgs names where m: "m = (imgs, names)" by (cases m)
  show ?thesis using False unfolding m register_def
    by (simp add: addUniqueImage_new isActive_eq)
qed

lemma foldl_register_ok: "okMaps m \<Longrightarrow> okMaps (foldl (register opId) m rs)"
  by (induction rs arbitrary: m) (simp_all add: register_ok)

lemma foldl_register_hashes:
  "okMaps m \<Longrightarrow> hash ` set (fst (foldl (register opId) m rs)) = hash ` set (fst m) \<union> fst ` set rs"
proof (induction rs arbitrary: m)
  case Nil
  show ?case by simp
next
  case (Cons r rs)
  have "hash ` set (fst (foldl (register opId) (register opId m r) rs))
        = hash ` set (fst (register opId m r)) \<union> fst ` set rs"
    using Cons.IH[OF register_ok[OF Cons.prems]] .
  then show ?case using register_hashes[OF Cons.prems, of opId r] by auto
qed

lemma foldl_register_extends: "\<exists>ext. fst (foldl (register opId) m rs) = fst m @ ext"
proof (induction rs arbitrary: m)
  case Nil
  show ?case by simp
next
  case (Cons r rs)
  obtain e1 where e1: "fst (register opId m r) = fst m @ e1" using register_extends by blast
  obtain e2 where "fst (foldl (register opId) (register opId m r) rs) = fst (register opId m r) @ e2"
    using Cons.IH by blast
  with e1 show ?case by simp
qed

lemma first_reference_wins:
  assumes "rs = pre @ (h, node) # post" "h \<notin> fst ` set pre"
  shows "\<exists>before after.
           fst (foldl (register opId) ([], []) rs)
             = before @ entryFor (map name before) h node # after
           \<and> hash ` set before = fst ` set pre"
proof -
  let ?m1 = "foldl (register opId) ([], []) pre"
  have ok0: "okMaps ([], [])" by (simp add: okMaps_def)
  have ok1: "okMaps ?m1" using foldl_register_ok[OF ok0] .
  have h1: "hash ` set (fst ?m1) = fst ` set pre"
    using foldl_register_hashes[OF ok0, of opId pre] by simp
  have n1: "snd ?m1 = map name (fst ?m1)" using ok1 by (simp add: okMaps_def)
  have "register opId ?m1 (h, node)
          = (fst ?m1 @ [entryFor (snd ?m1) h node], snd ?m1 @ [name (entryFor (snd ?m1) h node)])"
    using assms(2) h1 addUniqueImage_new[of "\<lparr>id' = opId, cancelled = False\<rparr>" opId h "fst ?m1" node "snd ?m1"]
    by (simp add: register_def isActive_eq)
  then have s: "fst (register opId ?m1 (h, node)) = fst ?m1 @ [entryFor (map name (fst ?m1)) h node]"
    using n1 by simp
  obtain ext where "fst (foldl (register opId) (register opId ?m1 (h, node)) post)
                      = fst (register opId ?m1 (h, node)) @ ext"
    using foldl_register_extends by blast
  then have "fst (foldl (register opId) ([], []) rs)
        = fst ?m1 @ entryFor (map name (fst ?m1)) h node # ext"
    unfolding assms(1) using s by simp
  with h1 show ?thesis by blast
qed

lemma processPaint_eq:
  "processPaint cur node opId m p
     = (if isImagePaint p then addUniqueImage cur (the (paint_imageHash p)) node m opId else m)"
  by (auto simp: processPaint_def isImagePaint_def split: option.splits)

lemma foldl_processPaint:
  "isActive cur opId \<Longrightarrow>
   foldl (processPaint cur node opId) m ps
     = foldl (register opId) m (map (\<lambda>h. (h, node)) (paintHashes (Some ps)))"
proof (induction ps arbitrary: m)
  case Nil
  show ?case by (simp add: paintHashes_def)
next
  case (Cons p ps)
  have cur: "cur = \<lparr>id' = opId, cancelled = False\<rparr>" using Cons.prems by (simp add: isActive_eq)
  show ?case
  proof (cases "isImagePaint p")
    case True
    then obtain h where h: "paint_imageHash p = Some h"
      by (auto simp: isImagePaint_def split: option.splits)
    have "paintHashes (Some (p # ps)) = h # paintHashes (Some ps)"
      using True h by (simp add: paintHashes_def)
    then show ?thesis
      using Cons.IH[OF Cons.prems] True h cur by (simp add: processPaint_eq register_def)
  next
    case False
    then have "paintHashes (Some (p # ps)) = paintHashes (Some ps)"
      by (simp add: paintHashes_def)
    then show ?thesis using Cons.IH[OF Cons.prems] False by (simp add: processPaint_eq)
  qed
qed

lemma paintHashes_none: "find isImagePaint ps = None \<Longrightarrow> paintHashes (Some ps) = []"
  by (induction ps) (auto simp: paintHashes_def split: if_splits)

lemma checkPaints_eq:
  "isActive cur opId \<Longrightarrow>
   checkPaints cur node opId paints m
     = foldl (register opId) m (map (\<lambda>h. (h, node)) (paintHashes paints))"
proof (cases paints)
  case None
  then show ?thesis by (simp add: checkPaints_def paintHashes_def)
next
  case (Some ps)
  assume a: "isActive cur opId"
  show ?thesis
  proof (cases "find isImagePaint ps = None")
    case True
    then show ?thesis using Some by (simp add: checkPaints_def paintHashes_none)
  next
    case False
    then show ?thesis using Some foldl_processPaint[OF a] by (auto simp add: checkPaints_def)
  qed
qed

lemma checkNodeForImages_eq:
  "isActive cur opId \<Longrightarrow>
   checkNodeForImages cur node m opId = foldl (register opId) m (references [node])"
  by (simp add: checkNodeForImages_def checkPaints_eq references_def imageRefs_def)

lemma references_Cons: "references (n # ns) = references [n] @ references ns"
  by (simp add: references_def)

lemma references_append: "references (xs @ ys) = references xs @ references ys"
  by (simp add: references_def)

lemma mapsOf_processNode:
  "mapsOf (processNode cur opId st node) = checkNodeForImages cur node (mapsOf st) opId"
  by (simp add: processNode_def mapsOf_def Let_def split: option.splits)

lemma mapsOf_foldl_processNode:
  "isActive cur opId \<Longrightarrow>
   mapsOf (foldl (processNode cur opId) st ns) = foldl (register opId) (mapsOf st) (references ns)"
proof (induction ns arbitrary: st)
  case Nil
  show ?case by (simp add: references_def)
next
  case (Cons n ns)
  show ?case
    using Cons.IH[OF Cons.prems, of "processNode cur opId st n"]
    by (simp add: mapsOf_processNode checkNodeForImages_eq[OF Cons.prems]
        references_Cons[of n ns])
qed

lemma mapsOf_processChunk:
  "isActive cur opId \<Longrightarrow> popChunk (stack st) = (chunk, rest) \<Longrightarrow>
   mapsOf (processChunk cur opId st) = foldl (register opId) (mapsOf st) (references chunk)"
  using mapsOf_foldl_processNode[of cur opId "st\<lparr>stack := rest\<rparr>" chunk]
  by (simp add: processChunk_def mapsOf_def)

lemma traversal_step:
  "stk \<noteq> [] \<Longrightarrow> popChunk stk = (chunk, rest) \<Longrightarrow>
   traversal stk = chunk @ traversal (rest @ pushed chunk)"
  by (subst traversal.simps) simp

lemma registerAll_chunk:
  assumes "isActive cur opId" "stack st \<noteq> []"
  shows "registerAll opId (mapsOf (processChunk cur opId st)) (traversal (stack (processChunk cur opId st)))
         = registerAll opId (mapsOf st) (traversal (stack st))"
proof -
  obtain chunk rest where p: "popChunk (stack st) = (chunk, rest)" by (cases "popChunk (stack st)")
  show ?thesis
    unfolding registerAll_def
    by (simp add: mapsOf_processChunk[OF assms(1) p] stack_processChunk[OF p]
        traversal_step[OF assms(2) p] references_append)
qed

lemma scanLoop_publishes:
  assumes "\<forall>x. ScanComplete x \<notin> set msgs"
    and "ScanComplete imgs \<in> set (posted (scanLoop env opId k cur st msgs))
         \<or> published (scanLoop env opId k cur st msgs) = Some imgs"
  shows "imgs = fst (registerAll opId (mapsOf st) (traversal (stack st)))"
  using assms
proof (induction env opId k cur st msgs rule: scanLoop.induct)
  case (1 env opId k cur st msgs)
  show ?case
  proof (cases "stack st = []")
    case True
    then have "imgs = uniqueImages st"
      using "1.prems" by (subst (asm) (1 2) scanLoop.simps) (auto split: if_splits)
    then show ?thesis using True
      by (simp add: registerAll_def traversal.simps references_def mapsOf_def)
  next
    case False
    show ?thesis
    proof (cases "isActive cur opId")
      case inactive: False
      then show ?thesis
        using "1.prems" False by (subst (asm) (1 2) scanLoop.simps) auto
    next
      case True
      let ?st' = "processChunk cur opId st"
      show ?thesis
      proof (cases "clock env k - lastUpdateTime ?st' > UPDATE_INTERVAL_MS")
        case yield: True
        let ?st2 = "?st'\<lparr>lastUpdateTime := clock env k\<rparr>"
        let ?cur2 = "foldl applyCall cur (during env k)"
        let ?msgs2 = "msgs @ [ScanProgress (Scanning (length (uniqueImages ?st')))
                        (min 95 (of_nat (scannedCount ?st') / of_nat (totalEstimated ?st') * 100))
                        (scannedCount ?st') Many]"
        have eq: "scanLoop env opId k cur st msgs = scanLoop env opId (Suc k) ?cur2 ?st2 ?msgs2"
          using False True yield by (subst scanLoop.simps) simp
        have "imgs = fst (registerAll opId (mapsOf ?st2) (traversal (stack ?st2)))"
          using "1.IH"(1)[OF False _ yield] True "1.prems" unfolding eq by simp
        moreover have "mapsOf ?st2 = mapsOf ?st'" "stack ?st2 = stack ?st'"
          by (simp_all add: mapsOf_def)
        ultimately show ?thesis using registerAll_chunk[OF True False] by simp
      next
        case noyield: False
        have eq: "scanLoop env opId k cur st msgs = scanLoop env opId (Suc k) cur ?st' msgs"
          using False True noyield by (subst scanLoop.simps) simp
        have "imgs = fst (registerAll opId (mapsOf ?st') (traversal (stack ?st')))"
          using "1.IH"(2)[OF False _ noyield] True "1.prems" unfolding eq by simp
        then show ?thesis using registerAll_chunk[OF True False] by simp
      qed
    qed
  qed
qed

lemma scanImages_publishes:
  assumes "ScanComplete imgs \<in> set (posted (scanImages env page scanMode cur opId))
           \<or> published (scanImages env page scanMode cur opId) = Some imgs"
  shows "imgs = fst (registerAll opId ([], []) (traversal (startNodesOf page scanMode)))"
proof -
  let ?st0 = "\<lparr>uniqueImages = [], existingNames = [], scannedCount = 0,
           stack = startNodesOf page scanMode,
           totalEstimated = length (startNodesOf page scanMode) * 5,
           lastUpdateTime = startedAt env\<rparr>"
  let ?m0 = "[ScanProgress StartingScan 0 0 (Count 100)]"
  have run: "scanImages env page scanMode cur opId = scanLoop env opId 0 cur ?st0 ?m0"
    using assms by (auto simp: scanImages_def split: if_splits)
  have "\<forall>x. ScanComplete x \<notin> set ?m0" by simp
  from scanLoop_publishes[OF this, of imgs env opId 0 cur ?st0] assms
  show ?thesis unfolding run by (simp add: mapsOf_def)
qed

lemma registerAll_ok: "okMaps (registerAll opId ([], []) nodes)"
  unfolding registerAll_def by (rule foldl_register_ok) (simp add: okMaps_def)

lemma registerAll_hashes:
  "hash ` set (fst (registerAll opId ([], []) nodes)) = fst ` set (references nodes)"
  unfolding registerAll_def
  using foldl_register_hashes[of "([], [])" opId "references nodes"] by (simp add: okMaps_def)

text \<open>
  C1. Whatever list a scan publishes (in its \<open>scan-complete\<close> message or in
  \<open>foundImages\<close>) has no two entries with the same hash; its hashes are exactly the hashes
  referenced along the traversal; for every hash, the entry is the one made at the first
  reference to it in traversal order, with the names taken by the entries before it; and
  \<open>addUniqueImage\<close> on a hash that is already present changes nothing.
\<close>

theorem scan_dedup_first_wins:
  assumes "ScanComplete imgs \<in> set (posted (scanImages env page scanMode cur opId))
           \<or> published (scanImages env page scanMode cur opId) = Some imgs"
  shows "distinct (map hash imgs)
     \<and> hash ` set imgs = fst ` set (references (traversal (startNodesOf page scanMode)))
     \<and> (\<forall>pre h node post.
           references (traversal (startNodesOf page scanMode)) = pre @ (h, node) # post
             \<and> h \<notin> fst ` set pre
           \<longrightarrow> (\<exists>before after. imgs = before @ entryFor (map name before) h node # after
                  \<and> hash ` set before = fst ` set pre))
     \<and> (\<forall>m h node. h \<in> hash ` set (fst m) \<longrightarrow> addUniqueImage cur h node m opId = m)"
proof (intro conjI allI impI)
  let ?nodes = "traversal (startNodesOf page scanMode)"
  have imgs: "imgs = fst (registerAll opId ([], []) ?nodes)"
    using scanImages_publishes[OF assms] .
  show "distinct (map hash imgs)"
    using registerAll_ok[of opId ?nodes] unfolding imgs by (simp add: okMaps_def)
  show "hash ` set imgs = fst ` set (references ?nodes)"
    unfolding imgs by (rule registerAll_hashes)
  show "\<exists>before after. imgs = before @ entryFor (map name before) h node # after
                  \<and> hash ` set before = fst ` set pre"
    if "references ?nodes = pre @ (h, node) # post \<and> h \<notin> fst ` set pre" for pre h node post
    unfolding imgs registerAll_def
    using first_reference_wins[of "references ?nodes" pre h node post opId] that by simp
  show "addUniqueImage cur h node m opId = m" if "h \<in> hash ` set (fst m)" for m h node
    using that by (simp add: addUniqueImage_old)
qed

lemma distinct_split_unique:
  assumes "distinct (map f xs)" "xs = a @ x # b" "xs = a' @ x' # b'" "f x = f x'"
  shows "a = a' \<and> x = x' \<and> b = b'"
  using assms
proof (induction a arbitrary: a' xs)
  case Nil
  show ?case
  proof (cases a')
    case Nil
    then show ?thesis using Nil.prems by simp
  next
    case (Cons y ys)
    then have "x = y" "b = ys @ x' # b'" using Nil.prems by simp_all
    then have "f x' \<in> f ` set b" by simp
    moreover have "f x \<notin> f ` set b" using Nil.prems(1,2) by simp
    ultimately show ?thesis using Nil.prems(4) by simp
  qed
next
  case (Cons z zs)
  show ?case
  proof (cases a')
    case Nil
    then have "z = x'" "zs @ x # b = b'" using Cons.prems by simp_all
    moreover have "f z \<noteq> f x" using Cons.prems(1,2) by auto
    ultimately show ?thesis using Cons.prems(4) by simp
  next
    case c: (Cons y ys)
    have "distinct (map f (tl xs))" "tl xs = zs @ x # b" "tl xs = ys @ x' # b'"
      using Cons.prems c by (simp_all add: distinct_tl map_tl[symmetric] del: map_tl)
    from Cons.IH[OF this Cons.prems(4)] show ?thesis using Cons.prems c by simp
  qed
qed

lemma first_occurrence:
  "h \<in> fst ` set rs \<Longrightarrow> \<exists>pre node post. rs = pre @ (h, node) # post \<and> h \<notin> fst ` set pre"
proof (induction rs)
  case Nil
  then show ?case by simp
next
  case (Cons r rs)
  show ?case
  proof (cases "fst r = h")
    case True
    then have "r # rs = [] @ (h, snd r) # rs \<and> h \<notin> fst ` set []" by (cases r) simp
    then show ?thesis by (intro exI)
  next
    case False
    then have "h \<in> fst ` set rs" using Cons.prems by auto
    from Cons.IH[OF this] obtain pre node post
      where p: "rs = pre @ (h, node) # post" "h \<notin> fst ` set pre" by blast
    have "r # rs = (r # pre) @ (h, node) # post \<and> h \<notin> fst ` set (r # pre)"
      using p False by auto
    then show ?thesis by (intro exI)
  qed
qed

lemma published_entry:
  assumes "ScanComplete imgs \<in> set (posted (scanImages env page scanMode cur opId))
           \<or> published (scanImages env page scanMode cur opId) = Some imgs"
    and "imgs = before @ e # after"
  shows "\<exists>pre node post.
           references (traversal (startNodesOf page scanMode)) = pre @ (hash e, node) # post
           \<and> hash e \<notin> fst ` set pre
           \<and> e = entryFor (map name before) (hash e) node"
proof -
  let ?rs = "references (traversal (startNodesOf page scanMode))"
  have imgs: "imgs = fst (registerAll opId ([], []) (traversal (startNodesOf page scanMode)))"
    using scanImages_publishes[OF assms(1)] .
  have d: "distinct (map hash imgs)"
    using registerAll_ok[of opId] unfolding imgs by (simp add: okMaps_def)
  have "hash e \<in> hash ` set imgs" using assms(2) by simp
  then have "hash e \<in> fst ` set ?rs" unfolding imgs registerAll_hashes .
  from first_occurrence[OF this] obtain pre node post
    where s: "?rs = pre @ (hash e, node) # post" "hash e \<notin> fst ` set pre" by blast
  from first_reference_wins[OF s, of opId] obtain b' a'
    where w: "imgs = b' @ entryFor (map name b') (hash e) node # a'"
    unfolding imgs registerAll_def by blast
  have "hash e = hash (entryFor (map name b') (hash e) node)" by (simp add: entryFor_def)
  from distinct_split_unique[OF d assms(2) w this]
  have u: "before = b' \<and> e = entryFor (map name b') (hash e) node \<and> after = a'" .
  have b: "before = b'" using u by (rule conjunct1)
  have e: "e = entryFor (map name b') (hash e) node" using u by (elim conjE)
  have "references (traversal (startNodesOf page scanMode)) = pre @ (hash e, node) # post
           \<and> hash e \<notin> fst ` set pre
           \<and> e = entryFor (map name before) (hash e) node"
    unfolding b using s e by (intro conjI)
  then show ?thesis by (intro exI)
qed

lemma nameLoop_rule:
  "(b \<notin> set names \<longrightarrow> nameLoop names b b 1 = b)
   \<and> (b \<in> set names \<longrightarrow>
        (\<exists>k\<ge>1. nameLoop names b b 1 = suffixed b k \<and> suffixed b k \<notin> set names
               \<and> (\<forall>j. 1 \<le> j \<and> j < k \<longrightarrow> suffixed b j \<in> set names)))"
proof (intro conjI impI)
  assume "b \<notin> set names"
  then show "nameLoop names b b 1 = b" by (rule nameLoop_untaken)
next
  assume t: "b \<in> set names"
  let ?k = "firstFree names b 1"
  have "1 \<le> ?k \<and> nameLoop names b b 1 = suffixed b ?k \<and> suffixed b ?k \<notin> set names
        \<and> (\<forall>j. 1 \<le> j \<and> j < ?k \<longrightarrow> suffixed b j \<in> set names)"
    using nameLoop_taken[where b=b and c=1, OF t] firstFree_props[where c=1 and names=names and b=b] by auto
  then show "\<exists>k\<ge>1. nameLoop names b b 1 = suffixed b k \<and> suffixed b k \<notin> set names
               \<and> (\<forall>j. 1 \<le> j \<and> j < k \<longrightarrow> suffixed b j \<in> set names)"
    by (intro exI)
qed

lemma reference_node:
  "rs = references nodes \<Longrightarrow> rs = pre @ (h, node) # post \<Longrightarrow>
   node \<in> set nodes \<and> h \<in> set (imageRefs (fst node))"
proof -
  assume a: "rs = references nodes" "rs = pre @ (h, node) # post"
  have "(h, node) \<in> set (pre @ (h, node) # post)" by simp
  then have "(h, node) \<in> set (references nodes)" using a by metis
  then show ?thesis by (auto simp: references_def)
qed

text \<open>
  C2, as amended. The names of a published list are pairwise distinct. Every entry is
  named from the sanitized name of a node that references its hash: it keeps that base
  name when no earlier entry has it, and otherwise gets the base name with the suffix
  \<open>_k\<close> for the least \<open>k \<ge> 1\<close> whose suffixed name no earlier entry has.
\<close>

theorem scan_names_distinct_and_suffixed:
  assumes "ScanComplete imgs \<in> set (posted (scanImages env page scanMode cur opId))
           \<or> published (scanImages env page scanMode cur opId) = Some imgs"
  shows "distinct (map name imgs)
     \<and> (\<forall>before e after. imgs = before @ e # after \<longrightarrow>
          (\<exists>node \<in> set (traversal (startNodesOf page scanMode)).
             hash e \<in> set (imageRefs (fst node))
             \<and> (baseNameOf node \<notin> name ` set before \<longrightarrow> name e = baseNameOf node)
             \<and> (baseNameOf node \<in> name ` set before \<longrightarrow>
                  (\<exists>k\<ge>1. name e = suffixed (baseNameOf node) k
                     \<and> suffixed (baseNameOf node) k \<notin> name ` set before
                     \<and> (\<forall>j. 1 \<le> j \<and> j < k \<longrightarrow> suffixed (baseNameOf node) j \<in> name ` set before)))))"
proof (intro conjI allI impI)
  have imgs: "imgs = fst (registerAll opId ([], []) (traversal (startNodesOf page scanMode)))"
    using scanImages_publishes[OF assms] .
  show "distinct (map name imgs)"
    using registerAll_ok[of opId] unfolding imgs by (simp add: okMaps_def)
  fix before e after
  assume s: "imgs = before @ e # after"
  from published_entry[OF assms s] obtain pre node post
    where p: "references (traversal (startNodesOf page scanMode)) = pre @ (hash e, node) # post"
      and e: "e = entryFor (map name before) (hash e) node" by blast
  have n: "node \<in> set (traversal (startNodesOf page scanMode))"
    and r: "hash e \<in> set (imageRefs (fst node))"
    using reference_node[OF refl p] by simp_all
  have nm: "name e = nameLoop (map name before) (baseNameOf node) (baseNameOf node) 1"
    by (subst e) (simp add: entryFor_def)
  have "hash e \<in> set (imageRefs (fst node))
             \<and> (baseNameOf node \<notin> name ` set before \<longrightarrow> name e = baseNameOf node)
             \<and> (baseNameOf node \<in> name ` set before \<longrightarrow>
                  (\<exists>k\<ge>1. name e = suffixed (baseNameOf node) k
                     \<and> suffixed (baseNameOf node) k \<notin> name ` set before
                     \<and> (\<forall>j. 1 \<le> j \<and> j < k \<longrightarrow> suffixed (baseNameOf node) j \<in> name ` set before)))"
    using r nameLoop_rule[of "baseNameOf node" "map name before"] unfolding nm by simp
  with n show "\<exists>node \<in> set (traversal (startNodesOf page scanMode)).
             hash e \<in> set (imageRefs (fst node))
             \<and> (baseNameOf node \<notin> name ` set before \<longrightarrow> name e = baseNameOf node)
             \<and> (baseNameOf node \<in> name ` set before \<longrightarrow>
                  (\<exists>k\<ge>1. name e = suffixed (baseNameOf node) k
                     \<and> suffixed (baseNameOf node) k \<notin> name ` set before
                     \<and> (\<forall>j. 1 \<le> j \<and> j < k \<longrightarrow> suffixed (baseNameOf node) j \<in> name ` set before)))"
    by (rule rev_bexI)
qed

lemma frameWalk_container:
  "chain = pre @ c # post \<Longrightarrow> base_type c \<in> containerTypes \<Longrightarrow>
   \<forall>p \<in> set pre. base_type p \<notin> containerTypes \<and> base_type p \<noteq> ''PAGE'' \<Longrightarrow>
   frameWalk chain = sanitizeFileName (Some (base_name c))"
proof (induction pre arbitrary: chain)
  case Nil
  then show ?case by (auto simp: containerTypes_def)
next
  case (Cons p pre)
  have "frameWalk (pre @ c # post) = sanitizeFileName (Some (base_name c))"
    using Cons.IH[OF refl Cons.prems(2)] Cons.prems(3) by simp
  then show ?case using Cons.prems(1,3) by (simp add: containerTypes_def)
qed

lemma frameWalk_page:
  "(\<forall>p \<in> set chain. base_type p \<notin> containerTypes)
   \<or> (\<exists>pre pg post. chain = pre @ pg # post \<and> base_type pg = ''PAGE''
         \<and> (\<forall>p \<in> set pre. base_type p \<notin> containerTypes)) \<Longrightarrow>
   frameWalk chain = js ''Page''"
proof (induction chain)
  case Nil
  show ?case by simp
next
  case (Cons q chain)
  show ?case
  proof (cases "base_type q \<in> containerTypes")
    case True
    with Cons.prems obtain pre pg post where
      s: "q # chain = pre @ pg # post" "base_type pg = ''PAGE''" "\<forall>p \<in> set pre. base_type p \<notin> containerTypes"
      by auto
    have "pre = []" using s(1,3) True by (cases pre) auto
    with s have "q = pg" by simp
    with s(2) True show ?thesis by (simp add: containerTypes_def)
  next
    case False
    show ?thesis
    proof (cases "base_type q = ''PAGE''")
      case True
      then show ?thesis by simp
    next
      case notpage: False
      have "(\<forall>p \<in> set chain. base_type p \<notin> containerTypes)
            \<or> (\<exists>pre pg post. chain = pre @ pg # post \<and> base_type pg = ''PAGE''
                 \<and> (\<forall>p \<in> set pre. base_type p \<notin> containerTypes))"
        using Cons.prems
      proof
        assume "\<forall>p \<in> set (q # chain). base_type p \<notin> containerTypes"
        then show ?thesis by simp
      next
        assume "\<exists>pre pg post. q # chain = pre @ pg # post \<and> base_type pg = ''PAGE''
                 \<and> (\<forall>p \<in> set pre. base_type p \<notin> containerTypes)"
        then obtain pre pg post where
          s: "q # chain = pre @ pg # post" "base_type pg = ''PAGE''" "\<forall>p \<in> set pre. base_type p \<notin> containerTypes"
          by blast
        show ?thesis
        proof (cases pre)
          case Nil
          with s notpage show ?thesis by simp
        next
          case (Cons a pre')
          with s have "chain = pre' @ pg # post \<and> base_type pg = ''PAGE''
                 \<and> (\<forall>p \<in> set pre'. base_type p \<notin> containerTypes)" by simp
          then show ?thesis by blast
        qed
      qed
      from Cons.IH[OF this] show ?thesis using False notpage by (simp add: containerTypes_def)
    qed
  qed
qed

lemma heroPage_scan:
  "posted (scanImages quietEnv heroPage entire activeManager 1000)
   = [ScanProgress StartingScan 0 0 (Count 100),
      ScanComplete [\<lparr>hash = js ''H1'', name = js ''Icon'', frame = js ''Hero''\<rparr>]]"
  by code_simp

lemma buttonPage_scan:
  "posted (scanImages quietEnv buttonPage entire activeManager 1000)
   = [ScanProgress StartingScan 0 0 (Count 100),
      ScanComplete [\<lparr>hash = js ''H1'', name = js ''Icon'', frame = js ''Btn''\<rparr>]]"
  by code_simp

lemma collidingPage_scan:
  "posted (scanImages quietEnv collidingPage entire activeManager 1000)
   = [ScanProgress StartingScan 0 0 (Count 100),
      ScanComplete [\<lparr>hash = js ''H1'', name = js ''a'', frame = js ''Hero''\<rparr>,
                    \<lparr>hash = js ''H2'', name = js ''a_1'', frame = js ''Hero''\<rparr>,
                    \<lparr>hash = js ''H3'', name = js ''a_1_1'', frame = js ''Hero''\<rparr>]]"
  by code_simp

lemma emptySelection_scan:
  "posted (scanImages quietEnv emptySelectionPage selected activeManager 1000)
     = [ScanProgress StartingScan 0 0 (Count 100)]
   \<and> outcome (scanImages quietEnv emptySelectionPage selected activeManager 1000)
     = Inl NoFramesSelected"
  by code_simp

text \<open>
  C7, as amended. The \<open>frame\<close> of a published entry is computed at the first node that
  references its hash, over the chain that starts with that node itself and goes up its
  parents: it is the sanitized name of the first node of the chain whose type is
  \<open>FRAME\<close>, \<open>COMPONENT\<close>, \<open>INSTANCE\<close> or \<open>COMPONENT_SET\<close> when no \<open>PAGE\<close> comes before it,
  and \<open>"Page"\<close> when the chain has no such node or a \<open>PAGE\<close> comes first. The witness is
  the scenario of the claim: \<open>Icon\<close> two levels inside the frame \<open>Hero\<close>.
\<close>

theorem scan_container_name:
  assumes "ScanComplete imgs \<in> set (posted (scanImages env page scanMode cur opId))
           \<or> published (scanImages env page scanMode cur opId) = Some imgs"
  shows "\<forall>e \<in> set imgs.
           \<exists>pre node post.
             references (traversal (startNodesOf page scanMode)) = pre @ (hash e, node) # post
             \<and> hash e \<notin> fst ` set pre
             \<and> frame e = frameWalk (asBase (fst node) # snd node)
             \<and> (\<forall>above c below.
                   asBase (fst node) # snd node = above @ c # below
                   \<and> base_type c \<in> containerTypes
                   \<and> (\<forall>p \<in> set above. base_type p \<notin> containerTypes \<and> base_type p \<noteq> ''PAGE'')
                   \<longrightarrow> frame e = sanitizeFileName (Some (base_name c)))
             \<and> ((\<forall>p \<in> set (asBase (fst node) # snd node). base_type p \<notin> containerTypes)
                  \<or> (\<exists>above pg below.
                        asBase (fst node) # snd node = above @ pg # below
                        \<and> base_type pg = ''PAGE''
                        \<and> (\<forall>p \<in> set above. base_type p \<notin> containerTypes))
                  \<longrightarrow> frame e = js ''Page'')"
proof
  fix e assume "e \<in> set imgs"
  then obtain before after where s: "imgs = before @ e # after" by (meson split_list)
  from published_entry[OF assms s] obtain pre node post
    where p: "references (traversal (startNodesOf page scanMode)) = pre @ (hash e, node) # post"
      and f: "hash e \<notin> fst ` set pre"
      and e: "e = entryFor (map name before) (hash e) node" by blast
  let ?chain = "asBase (fst node) # snd node"
  have fr: "frame e = frameWalk ?chain" by (subst e) (simp add: entryFor_def)
  have c1: "\<forall>above c below.
                   ?chain = above @ c # below
                   \<and> base_type c \<in> containerTypes
                   \<and> (\<forall>p \<in> set above. base_type p \<notin> containerTypes \<and> base_type p \<noteq> ''PAGE'')
                   \<longrightarrow> frame e = sanitizeFileName (Some (base_name c))"
    unfolding fr using frameWalk_container[of ?chain] by blast
  have c2: "(\<forall>p \<in> set ?chain. base_type p \<notin> containerTypes)
                  \<or> (\<exists>above pg below.
                        ?chain = above @ pg # below
                        \<and> base_type pg = ''PAGE''
                        \<and> (\<forall>p \<in> set above. base_type p \<notin> containerTypes))
                  \<longrightarrow> frame e = js ''Page''"
    unfolding fr using frameWalk_page[of ?chain] by blast
  have "references (traversal (startNodesOf page scanMode)) = pre @ (hash e, node) # post
             \<and> hash e \<notin> fst ` set pre
             \<and> frame e = frameWalk ?chain
             \<and> (\<forall>above c below.
                   ?chain = above @ c # below
                   \<and> base_type c \<in> containerTypes
                   \<and> (\<forall>p \<in> set above. base_type p \<notin> containerTypes \<and> base_type p \<noteq> ''PAGE'')
                   \<longrightarrow> frame e = sanitizeFileName (Some (base_name c)))
             \<and> ((\<forall>p \<in> set ?chain. base_type p \<notin> containerTypes)
                  \<or> (\<exists>above pg below.
                        ?chain = above @ pg # below
                        \<and> base_type pg = ''PAGE''
                        \<and> (\<forall>p \<in> set above. base_type p \<notin> containerTypes))
                  \<longrightarrow> frame e = js ''Page'')"
    using p f fr c1 c2 by (intro conjI)
  then show "\<exists>pre node post.
             references (traversal (startNodesOf page scanMode)) = pre @ (hash e, node) # post
             \<and> hash e \<notin> fst ` set pre
             \<and> frame e = frameWalk (asBase (fst node) # snd node)
             \<and> (\<forall>above c below.
                   asBase (fst node) # snd node = above @ c # below
                   \<and> base_type c \<in> containerTypes
                   \<and> (\<forall>p \<in> set above. base_type p \<notin> containerTypes \<and> base_type p \<noteq> ''PAGE'')
                   \<longrightarrow> frame e = sanitizeFileName (Some (base_name c)))
             \<and> ((\<forall>p \<in> set (asBase (fst node) # snd node). base_type p \<notin> containerTypes)
                  \<or> (\<exists>above pg below.
                        asBase (fst node) # snd node = above @ pg # below
                        \<and> base_type pg = ''PAGE''
                        \<and> (\<forall>p \<in> set above. base_type p \<notin> containerTypes))
                  \<longrightarrow> frame e = js ''Page'')"
    by (intro exI)
qed

theorem scan_container_name_witness:
  "ScanComplete [\<lparr>hash = js ''H1'', name = js ''Icon'', frame = js ''Hero''\<rparr>]
     \<in> set (posted (scanImages quietEnv heroPage entire activeManager 1000))
   \<and> (\<exists>pre node post.
         references (traversal (startNodesOf heroPage entire)) = pre @ (js ''H1'', node) # post
         \<and> js ''Hero'' = frameWalk (asBase (fst node) # snd node))"
proof -
  have h: "ScanComplete [\<lparr>hash = js ''H1'', name = js ''Icon'', frame = js ''Hero''\<rparr>]
     \<in> set (posted (scanImages quietEnv heroPage entire activeManager 1000))"
    by (simp add: heroPage_scan)
  from scan_container_name[OF disjI1[OF h]] h show ?thesis by fastforce
qed

text \<open>
  The claim as stated fails for an image inside an instance inside a frame: the entry
  records the instance \<open>Btn\<close>, not the nearest enclosing frame \<open>Hero\<close>.
\<close>

theorem instance_is_container_counterexample:
  "posted (scanImages quietEnv buttonPage entire activeManager 1000)
     = [ScanProgress StartingScan 0 0 (Count 100),
        ScanComplete [\<lparr>hash = js ''H1'', name = js ''Icon'', frame = js ''Btn''\<rparr>]]
   \<and> js ''Btn'' \<noteq> sanitizeFileName (Some (js ''Hero''))"
  by code_simp

text \<open>
  C4, as amended. A selection-mode scan with an empty selection throws the no-selection
  error after it has posted the one initial progress message, posts no completion
  message and publishes nothing; the handler posts the "select frames" message after it.
\<close>

theorem scan_empty_selection:
  assumes "selection page = []"
  shows "(isActive cur opId \<longrightarrow>
            outcome (scanImages env page selected cur opId) = Inl NoFramesSelected
            \<and> posted (scanImages env page selected cur opId)
                = [ScanProgress StartingScan 0 0 (Count 100)]
            \<and> published (scanImages env page selected cur opId) = None)
     \<and> posted (onmessage_scan_images now env page selected cur)
         = [ScanProgress StartingScan 0 0 (Count 100),
            ErrorMessage ''Please select the frames you want to scan, or switch to 'Entire Page' mode.'']
     \<and> published (onmessage_scan_images now env page selected cur) = None"
proof -
  have a: "isActive (snd (start now cur)) (fst (start now cur))"
    by (simp add: start_def isActive_def)
  have f: "getUserFriendlyError NoFramesSelected
      = ''Please select the frames you want to scan, or switch to 'Entire Page' mode.''"
    by (simp add: getUserFriendlyError_def String_includes_def)
  show ?thesis
    using assms a f
    by (auto simp add: scanImages_def onmessage_scan_images_def split: prod.splits)
qed

theorem scan_empty_selection_witness:
  "selection emptySelectionPage = []
   \<and> isActive activeManager 1000
   \<and> posted (scanImages quietEnv emptySelectionPage selected activeManager 1000)
       = [ScanProgress StartingScan 0 0 (Count 100)]
   \<and> posted (onmessage_scan_images 1000 quietEnv emptySelectionPage selected new_OperationManager)
       = [ScanProgress StartingScan 0 0 (Count 100),
          ErrorMessage ''Please select the frames you want to scan, or switch to 'Entire Page' mode.'']"
proof -
  have s: "selection emptySelectionPage = []" by (simp add: emptySelectionPage_def)
  have a: "isActive activeManager 1000" by (simp add: activeManager_def isActive_def)
  from scan_empty_selection[OF s, where cur=activeManager and opId=1000 and env=quietEnv]
    scan_empty_selection[OF s, where cur=new_OperationManager and now=1000 and env=quietEnv] s a
  show ?thesis by simp
qed

text \<open>
  The claim as stated fails: the progress message \<open>Starting scan...\<close> is posted before the
  selection is examined.
\<close>

theorem empty_selection_posts_progress_counterexample:
  "ScanProgress StartingScan 0 0 (Count 100)
     \<in> set (posted (scanImages quietEnv emptySelectionPage selected activeManager 1000))
   \<and> outcome (scanImages quietEnv emptySelectionPage selected activeManager 1000)
       = Inl NoFramesSelected"
  by code_simp

lemma collidingPage_complete:
  "ScanComplete collidingImages
     \<in> set (posted (scanImages quietEnv collidingPage entire activeManager 1000))"
  by (simp add: collidingPage_scan collidingImages_def)

theorem scan_dedup_first_wins_witness:
  "ScanComplete collidingImages
     \<in> set (posted (scanImages quietEnv collidingPage entire activeManager 1000))
   \<and> distinct (map hash collidingImages)
   \<and> hash ` set collidingImages
       = fst ` set (references (traversal (startNodesOf collidingPage entire)))"
  using scan_dedup_first_wins[OF disjI1[OF collidingPage_complete]] collidingPage_complete
  by simp

theorem scan_names_distinct_and_suffixed_witness:
  "ScanComplete collidingImages
     \<in> set (posted (scanImages quietEnv collidingPage entire activeManager 1000))
   \<and> distinct (map name collidingImages)"
  using scan_names_distinct_and_suffixed[OF disjI1[OF collidingPage_complete]]
    collidingPage_complete
  by simp

text \<open>
  The claim as stated fails for the first entry of a base name that an earlier suffix has
  taken: for images named \<open>a\<close>, \<open>a\<close>, \<open>a_1\<close> the second becomes \<open>a_1\<close>, and the third,
  the first entry whose base name is \<open>a_1\<close>, does not keep it but becomes \<open>a_1_1\<close>.
\<close>

theorem first_of_base_name_suffixed_counterexample:
  "posted (scanImages quietEnv collidingPage entire activeManager 1000)
     = [ScanProgress StartingScan 0 0 (Count 100),
        ScanComplete
          [\<lparr>hash = js ''H1'', name = js ''a'', frame = js ''Hero''\<rparr>,
           \<lparr>hash = js ''H2'', name = js ''a_1'', frame = js ''Hero''\<rparr>,
           \<lparr>hash = js ''H3'', name = js ''a_1_1'', frame = js ''Hero''\<rparr>]]
   \<and> sanitizeFileName (Some (node_name (namedImage ''a'' ''H1''))) = js ''a''
   \<and> sanitizeFileName (Some (node_name (namedImage ''a'' ''H2''))) = js ''a''
   \<and> sanitizeFileName (Some (node_name (namedImage ''a_1'' ''H3''))) = js ''a_1''
   \<and> js ''a_1_1'' \<noteq> js ''a_1''"
  by code_simp


section \<open>Properties of the batch fetcher\<close>

lemma startsFrom_closed:
  "startsFrom n (b * BATCH_SIZE)
     = map (\<lambda>c. c * BATCH_SIZE) [b..<(n + BATCH_SIZE - 1) div BATCH_SIZE]"
proof (induction n "b * BATCH_SIZE" arbitrary: b rule: startsFrom.induct)
  case (1 n)
  show ?case
  proof (cases "b * BATCH_SIZE < n")
    case True
    then have lt: "b < (n + BATCH_SIZE - 1) div BATCH_SIZE"
      by (simp add: BATCH_SIZE_def)
    have "startsFrom n (Suc b * BATCH_SIZE)
            = map (\<lambda>c. c * BATCH_SIZE) [Suc b..<(n + BATCH_SIZE - 1) div BATCH_SIZE]"
      using "1.hyps"[OF True, of "Suc b"] by (simp add: add.commute)
    then show ?thesis
      using True lt by (subst startsFrom.simps) (simp add: upt_conv_Cons add.commute)
  next
    case False
    then have "(n + BATCH_SIZE - 1) div BATCH_SIZE \<le> b"
      by (simp add: BATCH_SIZE_def)
    then show ?thesis using False by (subst startsFrom.simps) simp
  qed
qed

lemma startsFrom_0: "startsFrom n 0 = batchStarts n"
  using startsFrom_closed[of n 0] by (simp add: batchStarts_def)

lemma readyImages_append: "readyImages (xs @ ys) = readyImages xs @ readyImages ys"
  by (induction xs rule: readyImages.induct) simp_all

lemma readyImages_batchMessages:
  "readyImages (batchMessages env opId images i) = fulfilled (batchResults env opId images i)"
  by (simp add: batchMessages_def Let_def)

lemma fulfilled_append: "fulfilled (xs @ ys) = fulfilled xs @ fulfilled ys"
  by (simp add: fulfilled_def map_filter_def)

lemma rejected_append: "rejected (xs @ ys) = rejected xs + rejected ys"
  by (simp add: rejected_def)

lemma batchResults_upt:
  "batchResults env opId images i
     = map (\<lambda>j. fetchWithRetry env opId j (images ! j) 1) [i..<min (i + BATCH_SIZE) (length images)]"
proof (rule nth_equalityI)
  show "length (batchResults env opId images i)
        = length (map (\<lambda>j. fetchWithRetry env opId j (images ! j) 1) [i..<min (i + BATCH_SIZE) (length images)])"
    by (auto simp: batchResults_def)
next
  fix k assume "k < length (batchResults env opId images i)"
  then have k: "k < BATCH_SIZE" "k < length images - i" by (auto simp: batchResults_def)
  then have "i + k < min (i + BATCH_SIZE) (length images)" by simp
  then have "[i..<min (i + BATCH_SIZE) (length images)] ! k = i + k" by (rule nth_upt)
  then show "batchResults env opId images i ! k
     = map (\<lambda>j. fetchWithRetry env opId j (images ! j) 1) [i..<min (i + BATCH_SIZE) (length images)] ! k"
    using k by (simp add: batchResults_def nth_enumerate_eq)
qed

lemma results_from:
  "i \<le> length images \<Longrightarrow>
   concat (map (batchResults env opId images) (startsFrom (length images) i))
     = map (\<lambda>j. fetchWithRetry env opId j (images ! j) 1) [i..<length images]"
proof (induction "length images" i rule: startsFrom.induct)
  case (1 i)
  show ?case
  proof (cases "i < length images")
    case True
    let ?m = "min (i + BATCH_SIZE) (length images)"
    have "[i..<?m + (length images - ?m)] = [i..<?m] @ [?m..<?m + (length images - ?m)]"
      using True by (intro upt_add_eq_append) simp
    then have split: "[i..<length images] = [i..<?m] @ [?m..<length images]"
      by simp
    show ?thesis
    proof (cases "i + BATCH_SIZE \<le> length images")
      case le: True
      then have "?m = i + BATCH_SIZE" by simp
      then show ?thesis
        using "1.hyps"[OF True le] True split
        by (subst startsFrom.simps) (simp add: batchResults_upt)
    next
      case gt: False
      then have m: "?m = length images" by simp
      have "startsFrom (length images) (i + BATCH_SIZE) = []"
        using gt by (subst startsFrom.simps) simp
      then show ?thesis
        using True split m by (subst startsFrom.simps) (simp add: batchResults_upt)
    qed
  next
    case False
    then show ?thesis using "1.prems" by (subst startsFrom.simps) simp
  qed
qed

lemma fetchLoop_active:
  "isActive cur opId \<Longrightarrow> \<forall>i. isActive (afterBatch env i) opId \<Longrightarrow>
    fetchLoop env images opId i cur failed msgs
      = \<lparr>fetch_outcome = Inr (),
         fetch_posted =
           msgs @ concat (map (batchMessages env opId images) (startsFrom (length images) i))
           @ (let f = failed + rejected (concat (map (batchResults env opId images)
                                                    (startsFrom (length images) i)))
              in (if f > 0 then [Notify (warning f)] else []) @ finalMessages images f),
         fetch_failed = failed + rejected (concat (map (batchResults env opId images)
                                                     (startsFrom (length images) i)))\<rparr>"
proof (induction env images opId i cur failed msgs rule: fetchLoop.induct)
  case (1 env images opId i cur failed msgs)
  show ?case
  proof (cases "i < length images")
    case True
    have s: "startsFrom (length images) i = i # startsFrom (length images) (i + BATCH_SIZE)"
      using True by (subst startsFrom.simps) simp
    have a: "isActive (afterBatch env i) opId" using "1.prems"(2) by simp
    have ih: "fetchLoop env images opId (i + BATCH_SIZE) (afterBatch env i)
            (failed + rejected (batchResults env opId images i))
            (msgs @ batchMessages env opId images i)
      = \<lparr>fetch_outcome = Inr (),
         fetch_posted =
           (msgs @ batchMessages env opId images i)
           @ concat (map (batchMessages env opId images) (startsFrom (length images) (i + BATCH_SIZE)))
           @ (let f = (failed + rejected (batchResults env opId images i))
                      + rejected (concat (map (batchResults env opId images)
                                                    (startsFrom (length images) (i + BATCH_SIZE))))
              in (if f > 0 then [Notify (warning f)] else []) @ finalMessages images f),
         fetch_failed = (failed + rejected (batchResults env opId images i))
                      + rejected (concat (map (batchResults env opId images)
                                                     (startsFrom (length images) (i + BATCH_SIZE))))\<rparr>"
      using "1.IH" True "1.prems" a by blast
    show ?thesis
      using True "1.prems"(1)
      by (subst fetchLoop.simps) (simp add: ih s rejected_append Let_def add.assoc)
  next
    case False
    then have s: "startsFrom (length images) i = []" by (subst startsFrom.simps) simp
    show ?thesis
      using False "1.prems"(1)
      by (subst fetchLoop.simps) (simp add: s rejected_def finalMessages_def)
  qed
qed

lemma fetchLoop_trace:
  "\<exists>starts rest tail.
     fetch_posted (fetchLoop env images opId i cur failed msgs)
       = msgs @ concat (map (batchMessages env opId images) starts) @ tail
     \<and> startsFrom (length images) i = starts @ rest
     \<and> (fetch_outcome (fetchLoop env images opId i cur failed msgs) = Inr () \<longrightarrow> rest = [])
     \<and> (\<forall>m \<in> set tail. \<not> isBatchEvent m)"
proof (induction env images opId i cur failed msgs rule: fetchLoop.induct)
  case (1 env images opId i cur failed msgs)
  show ?case
  proof (cases "i < length images")
    case False
    then have s: "startsFrom (length images) i = []" by (subst startsFrom.simps) simp
    let ?tail = "(if failed > 0 then [Notify (warning failed)] else [])
           @ (if isActive cur opId
              then [DownloadProgress SendingDataToUI 100 (length images - failed)
                      (length images) (Some Done),
                    DownloadFinish]
              else [])"
    have "fetch_posted (fetchLoop env images opId i cur failed msgs)
            = msgs @ concat (map (batchMessages env opId images) []) @ ?tail
          \<and> startsFrom (length images) i = [] @ []
          \<and> (fetch_outcome (fetchLoop env images opId i cur failed msgs) = Inr () \<longrightarrow> [] = ([]::nat list))
          \<and> (\<forall>m \<in> set ?tail. \<not> isBatchEvent m)"
      using False by (subst (1 2) fetchLoop.simps) (auto simp add: s)
    then show ?thesis by (intro exI)
  next
    case True
    have s: "startsFrom (length images) i = i # startsFrom (length images) (i + BATCH_SIZE)"
      using True by (subst startsFrom.simps) simp
    show ?thesis
    proof (cases "isActive cur opId")
      case False
      have "fetch_posted (fetchLoop env images opId i cur failed msgs)
            = msgs @ concat (map (batchMessages env opId images) []) @ []
          \<and> startsFrom (length images) i = [] @ startsFrom (length images) i
          \<and> (fetch_outcome (fetchLoop env images opId i cur failed msgs) = Inr ()
               \<longrightarrow> startsFrom (length images) i = [])
          \<and> (\<forall>m \<in> set []. \<not> isBatchEvent m)"
        using True False by (subst (1 2) fetchLoop.simps) simp
      then show ?thesis by (intro exI)
    next
      case active: True
      let ?next = "fetchLoop env images opId (i + BATCH_SIZE) (afterBatch env i)
            (failed + rejected (batchResults env opId images i))
            (msgs @ batchMessages env opId images i)"
      have eq: "fetchLoop env images opId i cur failed msgs = ?next"
        using True active by (subst fetchLoop.simps) simp
      from "1.IH"[OF True] active obtain starts rest tail where
        ih: "fetch_posted ?next
               = (msgs @ batchMessages env opId images i)
                 @ concat (map (batchMessages env opId images) starts) @ tail"
            "startsFrom (length images) (i + BATCH_SIZE) = starts @ rest"
            "fetch_outcome ?next = Inr () \<longrightarrow> rest = []"
            "\<forall>m \<in> set tail. \<not> isBatchEvent m"
        by blast
      have "fetch_posted (fetchLoop env images opId i cur failed msgs)
            = msgs @ concat (map (batchMessages env opId images) (i # starts)) @ tail
          \<and> startsFrom (length images) i = (i # starts) @ rest
          \<and> (fetch_outcome (fetchLoop env images opId i cur failed msgs) = Inr () \<longrightarrow> rest = [])
          \<and> (\<forall>m \<in> set tail. \<not> isBatchEvent m)"
        unfolding eq using ih s by simp
      then show ?thesis by (intro exI)
    qed
  qed
qed

lemma oversize_fails:
  "\<forall>a. 1 \<le> a \<and> a \<le> MAX_RETRY_ATTEMPTS
        \<longrightarrow> (\<exists>w h bs. host env k a = Loaded w h bs \<and> length bs > MAX_FILE_SIZE) \<Longrightarrow>
   1 \<le> attempt \<Longrightarrow> \<exists>e. fetchWithRetry env opId k imgInfo attempt = Inl e"
proof (induction env opId k imgInfo attempt rule: fetchWithRetry.induct)
  case (1 env opId k imgInfo attempt)
  show ?case
  proof (cases "attempt \<le> MAX_RETRY_ATTEMPTS")
    case False
    then show ?thesis by (subst fetchWithRetry.simps) simp
  next
    case True
    then obtain w h bs where r: "host env k attempt = Loaded w h bs" "length bs > MAX_FILE_SIZE"
      using "1.prems" by blast
    then have once: "attempt_once imgInfo (host env k attempt) = Inl ImageTooLarge"
      by (simp add: attempt_once_def)
    show ?thesis
    proof (cases "attempt = MAX_RETRY_ATTEMPTS \<or> \<not> isActive (seenAtRetry env k attempt) opId")
      case stop: True
      then show ?thesis using True once by (subst fetchWithRetry.simps) auto
    next
      case go: False
      have "\<exists>e. fetchWithRetry env opId k imgInfo (attempt + 1) = Inl e"
        using "1.IH"[OF True once] go "1.prems" by simp
      then show ?thesis using True once go by (subst fetchWithRetry.simps) simp
    qed
  qed
qed

lemma fetchWithRetry_keeps:
  "fetchWithRetry env opId j imgInfo attempt = Inr v \<Longrightarrow>
   hash v = hash imgInfo \<and> name v = name imgInfo \<and> frame v = frame imgInfo"
proof (induction env opId j imgInfo attempt rule: fetchWithRetry.induct)
  case (1 env opId j imgInfo attempt)
  show ?case
  proof (cases "attempt_once imgInfo (host env j attempt)")
    case (Inr u)
    then have "v = u"
      using "1.prems" by (subst (asm) fetchWithRetry.simps) (simp split: if_splits)
    then show ?thesis
      using Inr by (auto simp: attempt_once_def split: HostReply.splits if_splits)
  next
    case (Inl e)
    then have c: "attempt \<le> MAX_RETRY_ATTEMPTS" "attempt \<noteq> MAX_RETRY_ATTEMPTS"
        "\<not> \<not> isActive (seenAtRetry env j attempt) opId"
        "fetchWithRetry env opId j imgInfo (attempt + 1) = Inr v"
      using "1.prems" by (subst (asm) fetchWithRetry.simps, simp split: if_splits)+
    from "1.IH"[OF c(1) Inl c(2,3,4)] show ?thesis .
  qed
qed

lemma results_one_failure:
  assumes "\<exists>e. f k = Inl e" "\<forall>j \<in> set idxs. j \<noteq> k \<longrightarrow> (\<exists>v. f j = Inr v)"
  shows "fulfilled (map f idxs) = map (\<lambda>j. projr (f j)) (filter (\<lambda>j. j \<noteq> k) idxs)
         \<and> rejected (map f idxs) = length (filter (\<lambda>j. j = k) idxs)"
  using assms(2)
proof (induction idxs)
  case Nil
  show ?case by (simp add: fulfilled_def rejected_def)
next
  case (Cons j idxs)
  have ih: "fulfilled (map f idxs) = map (\<lambda>j. projr (f j)) (filter (\<lambda>j. j \<noteq> k) idxs)"
      "rejected (map f idxs) = length (filter (\<lambda>j. j = k) idxs)"
    using Cons by simp_all
  show ?case
  proof (cases "j = k")
    case True
    then obtain e where "f j = Inl e" using assms(1) by blast
    then show ?thesis using True ih by (simp add: fulfilled_def rejected_def)
  next
    case False
    then obtain v where "f j = Inr v" using Cons.prems by auto
    then show ?thesis using False ih by (simp add: fulfilled_def rejected_def)
  qed
qed

lemma filter_eq_upt: "filter (\<lambda>j. j = k) [0..<n] = (if k < n then [k] else [])"
  by (induction n) auto

lemma readyImages_concat:
  "readyImages (concat (map (batchMessages env opId images) starts))
     = fulfilled (concat (map (batchResults env opId images) starts))"
proof (induction starts)
  case Nil
  show ?case by (simp add: fulfilled_def)
next
  case (Cons i starts)
  then show ?case
    by (simp add: readyImages_append readyImages_batchMessages fulfilled_append)
qed

lemma readyImages_mem:
  "ImagesBatchReady imgs \<in> set msgs \<Longrightarrow> set imgs \<subseteq> set (readyImages msgs)"
  by (induction msgs rule: readyImages.induct) auto

lemma batchMessages_no_notify: "Notify x \<notin> set (batchMessages env opId images i)"
  by (simp add: batchMessages_def Let_def)

lemma ready_nonempty:
  "ImagesBatchReady imgs \<in> set (batchMessages env opId images i) \<Longrightarrow>
   imgs \<noteq> [] \<and> imgs = fulfilled (batchResults env opId images i)"
  by (auto simp: batchMessages_def Let_def split: if_splits)

lemma fulfilled_ne_iff: "fulfilled rs \<noteq> [] \<longleftrightarrow> (\<exists>v. Inr v \<in> set rs)"
proof (induction rs)
  case Nil
  show ?case by (simp add: fulfilled_def)
next
  case (Cons r rs)
  then show ?case by (cases r) (auto simp: fulfilled_def)
qed

lemma ready_iff:
  "(\<exists>imgs. ImagesBatchReady imgs \<in> set (batchMessages env opId images i))
     \<longleftrightarrow> (\<exists>v. Inr v \<in> set (batchResults env opId images i))"
  using fulfilled_ne_iff[of "batchResults env opId images i"]
  by (auto simp: batchMessages_def Let_def)

lemma progress_always:
  "\<exists>p e. DownloadProgress FetchingImageData p (min (i + BATCH_SIZE) (length images))
            (length images) e \<in> set (batchMessages env opId images i)"
  by (simp add: batchMessages_def Let_def)

lemma warning_1:
  "warning 1 = js ''Warning: 1 images failed to download or were too large, even after retries. Max size is 100MB.''"
  by (simp add: warning_def numberToString.simps MAX_FILE_SIZE_def js_def)

text \<open>
  C8. In a fetch that stays active, where the host gives the image at index \<open>k\<close> more than
  \<open>MAX_FILE_SIZE\<close> bytes at every attempt and every other item is fetched: the fetch
  returns normally with \<open>failedCount = 1\<close>; the images of its batch-ready messages are the
  fetched images of all indices but \<open>k\<close>, in order (so with distinct hashes the hash of
  item \<open>k\<close> is in none of them); and the trace ends with the one warning, which names
  the count 1 and the ceiling 100MB, the final progress message with the successful
  count, and the completion message.
\<close>

theorem one_oversize_image:
  assumes "isActive cur opId"
    and "\<forall>i. isActive (afterBatch env i) opId"
    and "k < length images"
    and "\<forall>a. 1 \<le> a \<and> a \<le> MAX_RETRY_ATTEMPTS
            \<longrightarrow> (\<exists>w h bs. host env k a = Loaded w h bs \<and> length bs > MAX_FILE_SIZE)"
    and "\<forall>j < length images. j \<noteq> k
            \<longrightarrow> (\<exists>v. fetchWithRetry env opId j (images ! j) 1 = Inr v)"
  shows "fetch_outcome (fetchImageBytes env images opId msg cur) = Inr ()
     \<and> fetch_failed (fetchImageBytes env images opId msg cur) = 1
     \<and> readyImages (fetch_posted (fetchImageBytes env images opId msg cur))
         = map (\<lambda>j. projr (fetchWithRetry env opId j (images ! j) 1))
             (filter (\<lambda>j. j \<noteq> k) [0..<length images])
     \<and> (distinct (map hash images) \<longrightarrow>
          (\<forall>imgs. ImagesBatchReady imgs \<in> set (fetch_posted (fetchImageBytes env images opId msg cur))
             \<longrightarrow> hash (images ! k) \<notin> hash ` set imgs))
     \<and> (\<exists>before.
          fetch_posted (fetchImageBytes env images opId msg cur)
            = before
              @ [Notify (warning 1),
                 DownloadProgress SendingDataToUI 100 (length images - 1) (length images) (Some Done),
                 DownloadFinish]
          \<and> (\<forall>x. Notify x \<notin> set before))
     \<and> warning 1 = js ''Warning: 1 images failed to download or were too large, even after retries. Max size is 100MB.''"
proof -
  let ?n = "length images"
  let ?f = "\<lambda>j. fetchWithRetry env opId j (images ! j) 1"
  let ?starts = "startsFrom ?n 0"
  let ?run = "fetchImageBytes env images opId msg cur"
  let ?head = "[DownloadProgress Preparing 0 0 ?n None, DownloadStart msg ?n]"
  let ?before = "?head @ concat (map (batchMessages env opId images) ?starts)"
  have all: "concat (map (batchResults env opId images) ?starts) = map ?f [0..<?n]"
    using results_from[of 0 images env opId] by simp
  have fk: "\<exists>e. ?f k = Inl e"
    using oversize_fails[OF assms(4), of 1 opId "images ! k"] by simp
  have others: "\<forall>j \<in> set [0..<?n]. j \<noteq> k \<longrightarrow> (\<exists>v. ?f j = Inr v)"
    using assms(5) by simp
  from results_one_failure[of ?f k "[0..<?n]", OF fk others]
  have ful: "fulfilled (map ?f [0..<?n]) = map (\<lambda>j. projr (?f j)) (filter (\<lambda>j. j \<noteq> k) [0..<?n])"
    and rej: "rejected (map ?f [0..<?n]) = 1"
    using assms(3) by (simp_all add: filter_eq_upt)
  have run: "?run = \<lparr>fetch_outcome = Inr (),
         fetch_posted = ?before @ [Notify (warning 1)] @ finalMessages images 1,
         fetch_failed = 1\<rparr>"
    using assms(1) fetchLoop_active[OF assms(1,2), of images 0 0 ?head] rej
    by (simp add: fetchImageBytes_def all Let_def)
  have posted: "fetch_posted ?run = ?before @ [Notify (warning 1)] @ finalMessages images 1"
    by (simp add: run)
  have ready: "readyImages (fetch_posted ?run) = map (\<lambda>j. projr (?f j)) (filter (\<lambda>j. j \<noteq> k) [0..<?n])"
    unfolding posted using ful
    by (simp add: readyImages_append readyImages_concat all finalMessages_def)
  have absent: "hash (images ! k) \<notin> hash ` set imgs"
    if d: "distinct (map hash images)" and m: "ImagesBatchReady imgs \<in> set (fetch_posted ?run)"
    for imgs
  proof
    assume "hash (images ! k) \<in> hash ` set imgs"
    then obtain v where v: "v \<in> set imgs" "hash v = hash (images ! k)" by auto
    from readyImages_mem[OF m] v(1) have "v \<in> set (readyImages (fetch_posted ?run))" by blast
    then obtain j where j: "j < ?n" "j \<noteq> k" "v = projr (?f j)" unfolding ready by auto
    from assms(5) j obtain u where u: "?f j = Inr u" by blast
    then have "hash v = hash (images ! j)" using fetchWithRetry_keeps[OF u] j(3) by simp
    then have "map hash images ! j = map hash images ! k" using v(2) j(1) assms(3) by simp
    moreover have "j < length (map hash images)" "k < length (map hash images)"
      using j(1) assms(3) by simp_all
    ultimately have "j = k" using d nth_eq_iff_index_eq by blast
    with j(2) show False by simp
  qed
  have nonotify: "\<forall>x. Notify x \<notin> set ?before"
    by (auto simp: batchMessages_no_notify)
  have tail: "fetch_posted ?run
            = ?before
              @ [Notify (warning 1),
                 DownloadProgress SendingDataToUI 100 (?n - 1) ?n (Some Done),
                 DownloadFinish]
          \<and> (\<forall>x. Notify x \<notin> set ?before)"
    using nonotify unfolding posted by (simp add: finalMessages_def)
  have ex: "\<exists>before.
          fetch_posted ?run
            = before
              @ [Notify (warning 1),
                 DownloadProgress SendingDataToUI 100 (?n - 1) ?n (Some Done),
                 DownloadFinish]
          \<and> (\<forall>x. Notify x \<notin> set before)"
    using tail by (intro exI)
  show ?thesis
    using ready absent ex warning_1 by (simp add: run)
qed

text \<open>
  C10. The trace of a fetch is its two opening messages, the messages of the batches it
  processed, in order (all batches when it returns normally), and a tail without batch
  messages. The messages of a batch hold a batch-ready message if and only if some item
  of the batch was fetched, its list is then the non-empty list of the fetched items,
  and they always hold the batch's progress message. So no batch-ready message of a
  fetch carries an empty list.
\<close>

theorem batch_ready_iff_some_success:
  "(\<exists>starts rest tail.
      fetch_posted (fetchImageBytes env images opId msg cur)
        = (if isActive cur opId
           then [DownloadProgress Preparing 0 0 (length images) None,
                 DownloadStart msg (length images)]
           else [])
          @ concat (map (batchMessages env opId images) starts) @ tail
      \<and> batchStarts (length images) = starts @ rest
      \<and> (isActive cur opId \<and> fetch_outcome (fetchImageBytes env images opId msg cur) = Inr ()
            \<longrightarrow> rest = [])
      \<and> (\<forall>m \<in> set tail. \<not> isBatchEvent m))
   \<and> (\<forall>i. ((\<exists>imgs. ImagesBatchReady imgs \<in> set (batchMessages env opId images i))
              \<longleftrightarrow> (\<exists>v. Inr v \<in> set (batchResults env opId images i)))
          \<and> (\<forall>imgs. ImagesBatchReady imgs \<in> set (batchMessages env opId images i)
                \<longrightarrow> imgs \<noteq> [] \<and> imgs = fulfilled (batchResults env opId images i))
          \<and> (\<exists>p e. DownloadProgress FetchingImageData p (min (i + BATCH_SIZE) (length images))
                       (length images) e \<in> set (batchMessages env opId images i)))
   \<and> (\<forall>imgs. ImagesBatchReady imgs \<in> set (fetch_posted (fetchImageBytes env images opId msg cur))
         \<longrightarrow> imgs \<noteq> [])"
proof (intro conjI allI)
  let ?run = "fetchImageBytes env images opId msg cur"
  let ?head = "[DownloadProgress Preparing 0 0 (length images) None,
                 DownloadStart msg (length images)]"
  show dec: "\<exists>starts rest tail.
      fetch_posted ?run
        = (if isActive cur opId then ?head else [])
          @ concat (map (batchMessages env opId images) starts) @ tail
      \<and> batchStarts (length images) = starts @ rest
      \<and> (isActive cur opId \<and> fetch_outcome ?run = Inr () \<longrightarrow> rest = [])
      \<and> (\<forall>m \<in> set tail. \<not> isBatchEvent m)"
  proof (cases "isActive cur opId")
    case False
    then have "fetch_posted ?run
        = (if isActive cur opId then ?head else [])
          @ concat (map (batchMessages env opId images) []) @ []
      \<and> batchStarts (length images) = [] @ batchStarts (length images)
      \<and> (isActive cur opId \<and> fetch_outcome ?run = Inr () \<longrightarrow> batchStarts (length images) = [])
      \<and> (\<forall>m \<in> set []. \<not> isBatchEvent m)"
      by (simp add: fetchImageBytes_def)
    then show ?thesis by (intro exI)
  next
    case True
    then have run: "?run = fetchLoop env images opId 0 cur 0 ?head"
      by (simp add: fetchImageBytes_def)
    from fetchLoop_trace[of env images opId 0 cur 0 ?head] obtain starts rest tail where
      t: "fetch_posted (fetchLoop env images opId 0 cur 0 ?head)
            = ?head @ concat (map (batchMessages env opId images) starts) @ tail"
         "startsFrom (length images) 0 = starts @ rest"
         "fetch_outcome (fetchLoop env images opId 0 cur 0 ?head) = Inr () \<longrightarrow> rest = []"
         "\<forall>m \<in> set tail. \<not> isBatchEvent m"
      by blast
    have "fetch_posted ?run
        = (if isActive cur opId then ?head else [])
          @ concat (map (batchMessages env opId images) starts) @ tail
      \<and> batchStarts (length images) = starts @ rest
      \<and> (isActive cur opId \<and> fetch_outcome ?run = Inr () \<longrightarrow> rest = [])
      \<and> (\<forall>m \<in> set tail. \<not> isBatchEvent m)"
      using t True unfolding run startsFrom_0 by simp
    then show ?thesis by (intro exI)
  qed
  fix i
  show "(\<exists>imgs. ImagesBatchReady imgs \<in> set (batchMessages env opId images i))
              \<longleftrightarrow> (\<exists>v. Inr v \<in> set (batchResults env opId images i))"
    by (rule ready_iff)
  show "\<exists>p e. DownloadProgress FetchingImageData p (min (i + BATCH_SIZE) (length images))
                       (length images) e \<in> set (batchMessages env opId images i)"
    by (rule progress_always)
next
  fix i imgs
  show "ImagesBatchReady imgs \<in> set (batchMessages env opId images i)
                \<longrightarrow> imgs \<noteq> [] \<and> imgs = fulfilled (batchResults env opId images i)"
    using ready_nonempty by blast
next
  fix imgs
  let ?run = "fetchImageBytes env images opId msg cur"
  let ?head = "[DownloadProgress Preparing 0 0 (length images) None,
                 DownloadStart msg (length images)]"
  show "ImagesBatchReady imgs \<in> set (fetch_posted ?run) \<longrightarrow> imgs \<noteq> []"
  proof
    assume m: "ImagesBatchReady imgs \<in> set (fetch_posted ?run)"
    show "imgs \<noteq> []"
    proof (cases "isActive cur opId")
      case False
      then show ?thesis using m by (simp add: fetchImageBytes_def)
    next
      case True
      then have run: "?run = fetchLoop env images opId 0 cur 0 ?head"
        by (simp add: fetchImageBytes_def)
      from fetchLoop_trace[of env images opId 0 cur 0 ?head] obtain starts rest tail where
        t: "fetch_posted (fetchLoop env images opId 0 cur 0 ?head)
              = ?head @ concat (map (batchMessages env opId images) starts) @ tail"
           "\<forall>m \<in> set tail. \<not> isBatchEvent m"
        by blast
      have "ImagesBatchReady imgs \<notin> set tail" using t(2) by fastforce
      then have "ImagesBatchReady imgs \<in> set (concat (map (batchMessages env opId images) starts))"
        using m unfolding run t(1) by auto
      then obtain i where "ImagesBatchReady imgs \<in> set (batchMessages env opId images i)"
        by auto
      then show ?thesis using ready_nonempty by blast
    qed
  qed
qed

lemma small_png:
  "j \<noteq> Suc 0 \<Longrightarrow> fetchWithRetry oversizeEnv 1000 j imgInfo (Suc 0) = Inr (pngOf imgInfo)"
  by (subst fetchWithRetry.simps)
     (simp add: oversizeEnv_def attempt_once_def MAX_RETRY_ATTEMPTS_def MAX_FILE_SIZE_def
        detectImageFormat_def pngOf_def)

theorem one_oversize_image_witness:
  "isActive activeManager 1000
   \<and> 1 < length threeImages
   \<and> fetch_outcome (fetchImageBytes oversizeEnv threeImages 1000 request activeManager) = Inr ()
   \<and> fetch_failed (fetchImageBytes oversizeEnv threeImages 1000 request activeManager) = 1
   \<and> readyImages (fetch_posted (fetchImageBytes oversizeEnv threeImages 1000 request activeManager))
       = [pngOf (threeImages ! 0), pngOf (threeImages ! 2)]"
proof -
  have h1: "isActive activeManager 1000" by (simp add: activeManager_def isActive_def)
  have h2: "\<forall>i. isActive (afterBatch oversizeEnv i) 1000"
    by (simp add: oversizeEnv_def activeManager_def isActive_def)
  have h3: "1 < length threeImages" by (simp add: threeImages_def)
  have h4: "\<forall>a. 1 \<le> a \<and> a \<le> MAX_RETRY_ATTEMPTS
            \<longrightarrow> (\<exists>w h bs. host oversizeEnv 1 a = Loaded w h bs \<and> length bs > MAX_FILE_SIZE)"
    by (simp add: oversizeEnv_def)
  have h5: "\<forall>j < length threeImages. j \<noteq> 1
            \<longrightarrow> (\<exists>v. fetchWithRetry oversizeEnv 1000 j (threeImages ! j) 1 = Inr v)"
    by (simp add: small_png)
  have idx: "filter (\<lambda>j. j \<noteq> Suc 0) [0..<length threeImages] = [0, 2]"
    by (simp add: threeImages_def upt_rec)
  from one_oversize_image[OF h1 h2 h3 h4 h5, of request] h1 h3
  show ?thesis by (simp add: idx small_png)
qed

lemma missing_posted:
  "fetch_posted (fetchImageBytes missingEnv [\<lparr>hash = js ''H1'', name = js ''a'', frame = js ''Hero''\<rparr>]
                   1000 request activeManager)
   = [DownloadProgress Preparing 0 0 1 None,
      DownloadStart request 1,
      DownloadProgress FetchingImageData 100 1 1 (Some Calculating),
      Notify (js ''Warning: 1 images failed to download or were too large, even after retries. Max size is 100MB.''),
      DownloadProgress SendingDataToUI 100 0 1 (Some Done),
      DownloadFinish]"
  by (simp add: fetchImageBytes_def fetchLoop.simps batchMessages_def batchResults_def
      fetchWithRetry.simps attempt_once_def missingEnv_def activeManager_def isActive_def
      fulfilled_def rejected_def calculateETA_def warning_def numberToString.simps
      MAX_FILE_SIZE_def MAX_RETRY_ATTEMPTS_def BATCH_SIZE_def MIN_ETA_SAMPLES_def js_def
      enumerate_eq_zip Let_def)

theorem batch_ready_iff_some_success_witness:
  "fetch_posted (fetchImageBytes missingEnv [\<lparr>hash = js ''H1'', name = js ''a'', frame = js ''Hero''\<rparr>]
                   1000 request activeManager)
     = [DownloadProgress Preparing 0 0 1 None,
        DownloadStart request 1,
        DownloadProgress FetchingImageData 100 1 1 (Some Calculating),
        Notify (js ''Warning: 1 images failed to download or were too large, even after retries. Max size is 100MB.''),
        DownloadProgress SendingDataToUI 100 0 1 (Some Done),
        DownloadFinish]
   \<and> ImagesBatchReady []
       \<notin> set (fetch_posted (fetchImageBytes missingEnv
                  [\<lparr>hash = js ''H1'', name = js ''a'', frame = js ''Hero''\<rparr>] 1000 request activeManager))"
proof -
  from batch_ready_iff_some_success
    [of missingEnv "[\<lparr>hash = js ''H1'', name = js ''a'', frame = js ''Hero''\<rparr>]" 1000 request activeManager]
  have "\<forall>imgs. ImagesBatchReady imgs
          \<in> set (fetch_posted (fetchImageBytes missingEnv
                  [\<lparr>hash = js ''H1'', name = js ''a'', frame = js ''Hero''\<rparr>] 1000 request activeManager))
         \<longrightarrow> imgs \<noteq> []"
    by (elim conjE)
  then have "ImagesBatchReady []
       \<notin> set (fetch_posted (fetchImageBytes missingEnv
                  [\<lparr>hash = js ''H1'', name = js ''a'', frame = js ''Hero''\<rparr>] 1000 request activeManager))"
    by blast
  with missing_posted show ?thesis by (intro conjI)
qed

end
